theory Spec2Isabelle
  imports Complex_Main "HOL-Library.Word" "HOL-Library.Log_Nat"
begin

unbundle bit_operations_syntax

section \<open>Machine integers\<close>

text \<open>
  The C sources compute on \<open>uint16_t\<close>, \<open>uint32_t\<close> and \<open>uint64_t\<close>. They are modelled as
  words of that width: \<open>+\<close> and \<open>-\<close> wrap around, \<open>push_bit\<close> is \<open><<\<close>, \<open>drop_bit\<close> is the
  logical \<open>>>\<close>, \<open>ucast\<close> is a conversion between widths (zero extension or truncation).
\<close>

type_synonym u16 = "16 word"
type_synonym u32 = "32 word"
type_synonym u64 = "64 word"

section \<open>Leading-zero count (identical in both variants)\<close>

text \<open>
  \<open>clz32\<close>: five test-and-shift stages of 16, 8, 4, 2 and 1 bits; the last stage only counts.
  The pair carries the locals \<open>(n, x)\<close> from one \<open>if\<close> statement to the next.
\<close>

definition clz32 :: "u32 \<Rightarrow> u32" where
  "clz32 x =
     (if x = 0 then 32
      else
        let s0 = (0 :: u32, x);
            s1 = (if drop_bit 16 (snd s0) = 0 then (fst s0 + 16, push_bit 16 (snd s0)) else s0);
            s2 = (if drop_bit 24 (snd s1) = 0 then (fst s1 + 8, push_bit 8 (snd s1)) else s1);
            s3 = (if drop_bit 28 (snd s2) = 0 then (fst s2 + 4, push_bit 4 (snd s2)) else s2);
            s4 = (if drop_bit 30 (snd s3) = 0 then (fst s3 + 2, push_bit 2 (snd s3)) else s3);
            s5 = (if drop_bit 31 (snd s4) = 0 then (fst s4 + 1, snd s4) else s4)
        in fst s5)"

section \<open>Restricted-width multiply primitives\<close>

subsection \<open>Reference variant: 32x32 -> 64 shift-add multiply\<close>

text \<open>
  The \<open>while (b)\<close> loop of \<open>mul32_shift_add\<close>, with its three locals as arguments. Each round
  halves \<open>b\<close>, which is the termination measure.
\<close>

function mul32_loop :: "u64 \<Rightarrow> u64 \<Rightarrow> u32 \<Rightarrow> u64" where
  "mul32_loop acc aa b =
     (if b = 0 then acc
      else mul32_loop (if b AND 1 \<noteq> 0 then acc + aa else acc) (push_bit 1 aa) (drop_bit 1 b))"
  by pat_completeness auto
termination
proof (relation "measure (\<lambda>(acc, aa, b). unat b)")
  show "wf (measure (\<lambda>(acc :: u64, aa :: u64, b :: u32). unat b))"
    by simp
next
  fix acc aa :: u64 and b :: u32
  assume "b \<noteq> 0"
  then have "0 < unat b"
    by (simp add: unat_gt_0)
  then have "unat b div 2 < unat b"
    by simp
  then show "((if b AND 1 \<noteq> 0 then acc + aa else acc, push_bit 1 aa, drop_bit 1 b), acc, aa, b)
      \<in> measure (\<lambda>(acc, aa, b). unat b)"
    by (simp add: drop_bit_eq_div unat_div)
qed

declare mul32_loop.simps [simp del]

definition mul32_shift_add :: "u32 \<Rightarrow> u32 \<Rightarrow> u64" where
  "mul32_shift_add a b = mul32_loop 0 (ucast a) b"

subsection \<open>Optimal variant: 16x16 -> 32 multiply by nibbles\<close>

text \<open>
  The body of the \<open>for (shift = 0; shift < 16; shift += 4)\<close> loop of \<open>mul16x16_32\<close>: the partial
  product \<open>p\<close> of \<open>a\<close> with one nibble of \<open>b16\<close>.
\<close>

definition nibble_product :: "u32 \<Rightarrow> u32 \<Rightarrow> u32" where
  "nibble_product a nib =
     (let p = 0;
          p = (if nib AND 1 \<noteq> 0 then p + a else p);
          p = (if nib AND 2 \<noteq> 0 then p + push_bit 1 a else p);
          p = (if nib AND 4 \<noteq> 0 then p + push_bit 2 a else p);
          p = (if nib AND 8 \<noteq> 0 then p + push_bit 3 a else p)
      in p)"

function mul16_loop :: "u32 \<Rightarrow> u32 \<Rightarrow> nat \<Rightarrow> u32 \<Rightarrow> u32" where
  "mul16_loop a b16 shift acc =
     (if shift < 16
      then mul16_loop a b16 (shift + 4)
             (acc + push_bit shift (nibble_product a (drop_bit shift b16 AND 0xF)))
      else acc)"
  by pat_completeness auto
termination
  by (relation "measure (\<lambda>(a, b16, shift, acc). 16 - shift)") auto

declare mul16_loop.simps [simp del]

definition mul16x16_32 :: "u32 \<Rightarrow> u32 \<Rightarrow> u32" where
  "mul16x16_32 a16 b16 = mul16_loop (a16 AND 0xFFFF) b16 0 0"

definition mul32x16_shr16 :: "u32 \<Rightarrow> u32 \<Rightarrow> u32" where
  "mul32x16_shr16 x32 y16 =
     (let x_lo = x32 AND 0xFFFF;
          x_hi = drop_bit 16 x32;
          p_hi = mul16x16_32 x_hi y16;
          p_lo = drop_bit 16 (mul16x16_32 x_lo y16)
      in p_hi + p_lo)"

section \<open>The lookup tables\<close>

text \<open>
  Both files carry their own \<open>static const uint16_t rsqrt_table[32]\<close>. The reference file
  writes entry 0 as \<open>UINT16_MAX\<close>, which is 65535.
\<close>

definition rsqrt_table_ref :: "u16 list" where
  "rsqrt_table_ref =
     [65535, 46341, 32768, 23170, 16384,
      11585, 8192, 5793, 4096, 2896,
      2048, 1448, 1024, 724, 512,
      362, 256, 181, 128, 90,
      64, 45, 32, 23, 16,
      11, 8, 6, 4, 3,
      2, 1]"

definition rsqrt_table_opt :: "u16 list" where
  "rsqrt_table_opt =
     [65535, 46341, 32768, 23170, 16384,
      11585, 8192, 5793, 4096, 2896,
      2048, 1448, 1024, 724, 512,
      362, 256, 181, 128, 90,
      64, 45, 32, 23, 16,
      11, 8, 6, 4, 3,
      2, 1]"

text \<open>
  A read of a table at a 32-bit index, widened to \<open>uint32_t\<close> as the C assignment does. C leaves
  a read past the end of the array undefined; here it is the value \<open>None\<close>.
\<close>

definition lut :: "u16 list \<Rightarrow> u32 \<Rightarrow> u32 option" where
  "lut tbl i = (if unat i < length tbl then Some (ucast (tbl ! unat i)) else None)"

section \<open>Reference variant\<close>

text \<open>The local \<open>term\<close> of the reference \<open>q16_newton_step\<close>, with the locals it is built from.\<close>

definition newton_term_ref :: "u32 \<Rightarrow> u32 \<Rightarrow> u32" where
  "newton_term_ref y x =
     (let y2 = mul32_shift_add y y;
          y2_lo = (ucast y2 :: u32);
          y2_hi = (ucast (drop_bit 32 y2) :: u32);
          prod_lo = mul32_shift_add x y2_lo;
          prod_hi = mul32_shift_add x y2_hi;
          xy2_q16_64 = push_bit 16 prod_hi + drop_bit 16 (prod_lo + push_bit 15 1);
          xy2_q16 = (ucast xy2_q16_64 :: u32)
      in push_bit 16 3 - xy2_q16)"

definition q16_newton_step_ref :: "u32 \<Rightarrow> u32 \<Rightarrow> u32" where
  "q16_newton_step_ref y x =
     (let term = newton_term_ref y x;
          prod = mul32_shift_add y term
      in ucast (drop_bit 17 (prod + push_bit 16 1)))"

text \<open>
  The locals \<open>exp\<close>, \<open>y_base\<close>, \<open>y_next\<close>, \<open>frac\<close> and the interpolated \<open>y\<close> of
  \<open>fast_rsqrt\<close>, one definition each. Bound variables are written \<open>expo\<close> and \<open>fr\<close>, since
  \<open>exp\<close> and \<open>frac\<close> are constants of the real-number library.
\<close>

definition bucket :: "u32 \<Rightarrow> u32" where
  "bucket x = 31 - clz32 x"

definition y_base_ref :: "u32 \<Rightarrow> u32 option" where
  "y_base_ref expo = lut rsqrt_table_ref expo"

definition y_next_ref :: "u32 \<Rightarrow> u32 option" where
  "y_next_ref expo = (if expo < 31 then lut rsqrt_table_ref (expo + 1) else Some 1)"

definition frac_ref :: "u32 \<Rightarrow> u32" where
  "frac_ref x =
     (let expo = bucket x;
          one_exp = (if expo < 31 then push_bit (unat expo) 1 else 0 :: u32)
      in ucast (drop_bit (unat expo) (push_bit 16 ((ucast x :: u64) - ucast one_exp))))"

definition interpolate_ref :: "u32 \<Rightarrow> u32 \<Rightarrow> u32 \<Rightarrow> u32" where
  "interpolate_ref y_base y_next fr =
     (let delta = y_base - y_next
      in y_base - ucast (drop_bit 16 (mul32_shift_add delta fr)))"

text \<open>
  Steps 1 to 3 of \<open>fast_rsqrt\<close>: the interpolated estimate \<open>y\<close> that is handed to the Newton
  steps. It is \<open>None\<close> when a table read was out of range.
\<close>

definition seed_ref :: "u32 \<Rightarrow> u32 option" where
  "seed_ref x =
     (let expo = bucket x in
      case y_base_ref expo of
        None \<Rightarrow> None
      | Some y_base \<Rightarrow>
          (case y_next_ref expo of
             None \<Rightarrow> None
           | Some y_next \<Rightarrow> Some (interpolate_ref y_base y_next (frac_ref x))))"

definition fast_rsqrt_ref :: "u32 \<Rightarrow> u32 option" where
  "fast_rsqrt_ref x =
     (if x = 0 then Some 0
      else
        case seed_ref x of
          None \<Rightarrow> None
        | Some y0 \<Rightarrow>
            (let y = q16_newton_step_ref y0 x;
                 y = q16_newton_step_ref y x
             in Some y))"

section \<open>Optimal variant\<close>

text \<open>The local \<open>term\<close> of the optimal \<open>q16_newton_step\<close>; \<open>y\<close> is already masked by the caller.\<close>

definition newton_term_opt :: "u32 \<Rightarrow> u32 \<Rightarrow> u32" where
  "newton_term_opt y x =
     (let y2 = mul16x16_32 y y;
          y2_lo = y2 AND 0xFFFF;
          y2_hi = drop_bit 16 y2;
          x_lo = x AND 0xFFFF;
          x_hi = drop_bit 16 x;
          acc = (0 :: u64);
          acc = acc + push_bit 16 (ucast (mul16x16_32 x_hi y2_hi));
          acc = acc + ucast (mul16x16_32 x_lo y2_hi);
          acc = acc + ucast (mul16x16_32 x_hi y2_lo);
          acc = acc + drop_bit 16 (ucast (mul16x16_32 x_lo y2_lo));
          xy2_q16 = (ucast acc :: u32)
      in push_bit 16 3 - xy2_q16)"

definition q16_newton_step_opt :: "u32 \<Rightarrow> u32 \<Rightarrow> u32" where
  "q16_newton_step_opt y0 x =
     (let y = y0 AND 0xFFFF;
          term = newton_term_opt y x;
          term_hi = drop_bit 16 term;
          term_lo = term AND 0xFFFF;
          y_mul_hi = (if term_hi = 3 then push_bit 1 y + y
                      else if term_hi = 2 then push_bit 1 y
                      else if term_hi = 1 then y else 0);
          t0 = drop_bit 1 y_mul_hi;
          t1 = drop_bit 17 (mul16x16_32 y term_lo)
      in t0 + t1)"

definition y_base_opt :: "u32 \<Rightarrow> u32 option" where
  "y_base_opt e = lut rsqrt_table_opt e"

definition y_next_opt :: "u32 \<Rightarrow> u32 option" where
  "y_next_opt e = (if e < 31 then lut rsqrt_table_opt (e + 1) else Some 1)"

definition frac_opt :: "u32 \<Rightarrow> u32" where
  "frac_opt x =
     (let e = bucket x;
          base = (push_bit (unat e) 1 :: u32);
          diff = x - base
      in if 16 \<le> e then drop_bit (unat (e - 16)) diff else push_bit (unat (16 - e)) diff)"

definition interpolate_opt :: "u32 \<Rightarrow> u32 \<Rightarrow> u32 \<Rightarrow> u32" where
  "interpolate_opt y0 y1 fr =
     (let dy = y0 - y1
      in y0 - drop_bit 16 (mul16x16_32 dy fr))"

definition seed_opt :: "u32 \<Rightarrow> u32 option" where
  "seed_opt x =
     (let e = bucket x in
      case y_base_opt e of
        None \<Rightarrow> None
      | Some y0 \<Rightarrow>
          (case y_next_opt e of
             None \<Rightarrow> None
           | Some y1 \<Rightarrow> Some (interpolate_opt y0 y1 (frac_opt x))))"

definition fast_rsqrt_opt :: "u32 \<Rightarrow> u32 option" where
  "fast_rsqrt_opt x =
     (if x = 0 then Some 0
      else
        case seed_opt x of
          None \<Rightarrow> None
        | Some y \<Rightarrow> Some (q16_newton_step_opt y x))"

section \<open>Proof invariants\<close>

text \<open>
  The invariant of the five stages of \<open>clz32\<close> on input \<open>x\<close>: the count so far is at most \<open>m\<close>,
  the shifted word is \<open>x\<close> times two to the count (nothing was shifted out), and it is at least
  \<open>2 ^ k\<close>.
\<close>

definition clz_inv :: "u32 \<Rightarrow> nat \<Rightarrow> nat \<Rightarrow> u32 \<times> u32 \<Rightarrow> bool" where
  "clz_inv x k m s \<longleftrightarrow>
     unat (fst s) \<le> m \<and> unat (snd s) = unat x * 2 ^ unat (fst s) \<and> 2 ^ k \<le> unat (snd s)"

section \<open>Arithmetic reading of the stages\<close>

text \<open>
  The same stages on natural numbers, with every wrap-around written as \<open>mod\<close>. They are not
  taken from the sources: the lemmas below prove, for all words, that each source function
  above has these values (\<open>unat (f x) = f_nat (unat x)\<close>), and the claims are then read off
  these formulas. Each definition takes the values it uses more than once as arguments.
\<close>

subsection \<open>Reference Newton step\<close>

definition xy2_q16_ref_nat :: "nat \<Rightarrow> nat \<Rightarrow> nat" where
  "xy2_q16_ref_nat y2 x =
     (x * (y2 div 2 ^ 32) * 2 ^ 16 + (x * (y2 mod 2 ^ 32) + 2 ^ 15) div 2 ^ 16) mod 2 ^ 32"

definition newton_term_ref_nat :: "nat \<Rightarrow> nat \<Rightarrow> nat" where
  "newton_term_ref_nat y x = (3 * 2 ^ 16 + 2 ^ 32 - xy2_q16_ref_nat (y * y) x) mod 2 ^ 32"

definition q16_newton_step_ref_nat :: "nat \<Rightarrow> nat \<Rightarrow> nat" where
  "q16_newton_step_ref_nat y x = (y * newton_term_ref_nat y x + 2 ^ 16) div 2 ^ 17 mod 2 ^ 32"

subsection \<open>Optimal Newton step\<close>

definition xy2_q16_opt_nat :: "nat \<Rightarrow> nat \<Rightarrow> nat" where
  "xy2_q16_opt_nat y2 x =
     ((x div 2 ^ 16) * (y2 div 2 ^ 16) * 2 ^ 16 + (x mod 2 ^ 16) * (y2 div 2 ^ 16)
       + (x div 2 ^ 16) * (y2 mod 2 ^ 16) + (x mod 2 ^ 16) * (y2 mod 2 ^ 16) div 2 ^ 16) mod 2 ^ 32"

definition newton_term_opt_nat :: "nat \<Rightarrow> nat \<Rightarrow> nat" where
  "newton_term_opt_nat y x =
     (3 * 2 ^ 16 + 2 ^ 32 - xy2_q16_opt_nat ((y mod 2 ^ 16) * (y mod 2 ^ 16)) x) mod 2 ^ 32"

definition y_mul_hi_nat :: "nat \<Rightarrow> nat \<Rightarrow> nat" where
  "y_mul_hi_nat term_hi y =
     (if term_hi = 3 then 2 * y + y else if term_hi = 2 then 2 * y else if term_hi = 1 then y else 0)"

definition newton_combine_opt_nat :: "nat \<Rightarrow> nat \<Rightarrow> nat" where
  "newton_combine_opt_nat y tm = y_mul_hi_nat (tm div 2 ^ 16) y div 2 + y * (tm mod 2 ^ 16) div 2 ^ 17"

definition q16_newton_step_opt_nat :: "nat \<Rightarrow> nat \<Rightarrow> nat" where
  "q16_newton_step_opt_nat y0 x =
     newton_combine_opt_nat (y0 mod 2 ^ 16) (newton_term_opt_nat (y0 mod 2 ^ 16) x)"

subsection \<open>Bucket and interpolation\<close>

text \<open>
  \<open>highest_bit n\<close> is the index of the highest set bit of \<open>n > 0\<close>, that is
  \<open>\<lfloor>log\<^sub>2 n\<rfloor>\<close>. \<open>frac_spec\<close> follows the words of the specification, \<open>((x - 2^exp) << 16) >> exp\<close>
  on unbounded integers with \<open>exp\<close> the index of the highest set bit; it is what the two
  \<open>frac\<close> computations of the sources are compared with.
\<close>

definition highest_bit :: "nat \<Rightarrow> nat" where
  "highest_bit n = floorlog 2 n - 1"

definition frac_at :: "nat \<Rightarrow> nat \<Rightarrow> nat" where
  "frac_at e n = (n - 2 ^ e) * 2 ^ 16 div 2 ^ e"

definition frac_spec :: "nat \<Rightarrow> nat" where
  "frac_spec n = frac_at (highest_bit n) n"

definition rsqrt_table_nat :: "nat list" where
  "rsqrt_table_nat = map unat rsqrt_table_ref"

definition seed_at :: "nat \<Rightarrow> nat \<Rightarrow> nat" where
  "seed_at e n =
     rsqrt_table_nat ! e
       - (rsqrt_table_nat ! e - (if e < 31 then rsqrt_table_nat ! (e + 1) else 1)) * frac_at e n
           div 2 ^ 16"

definition seed_nat :: "nat \<Rightarrow> nat" where
  "seed_nat n = seed_at (highest_bit n) n"

definition rsqrt_ref_nat :: "nat \<Rightarrow> nat" where
  "rsqrt_ref_nat n =
     (if n = 0 then 0
      else q16_newton_step_ref_nat (q16_newton_step_ref_nat (seed_nat n) n) n)"

definition rsqrt_opt_nat :: "nat \<Rightarrow> nat" where
  "rsqrt_opt_nat n = (if n = 0 then 0 else q16_newton_step_opt_nat (seed_nat n) n)"

subsection \<open>Checks on numerals\<close>

text \<open>
  \<open>entry_rounds i n\<close> says in integers that \<open>n\<close> is \<open>2^16 / sqrt (2^i)\<close> rounded to nearest:
  \<open>n - 1/2 \<le> 2^16 / sqrt (2^i) < n + 1/2\<close>, squared and cleared of fractions.
\<close>

definition entry_rounds :: "nat \<Rightarrow> nat \<Rightarrow> bool" where
  "entry_rounds i n \<longleftrightarrow>
     0 < n \<and> (2 * n - 1)\<^sup>2 * 2 ^ i \<le> 2 ^ 34 \<and> 2 ^ 34 < (2 * n + 1)\<^sup>2 * 2 ^ i"

text \<open>
  \<open>within_rel p q y n\<close> says in integers that \<open>y\<close> is within the fraction \<open>p / q\<close> of
  \<open>2^16 / sqrt n\<close>: \<open>(1 - p/q) * 2^16 \<le> y * sqrt n \<le> (1 + p/q) * 2^16\<close>, squared and cleared of
  fractions.
\<close>

definition within_rel :: "nat \<Rightarrow> nat \<Rightarrow> nat \<Rightarrow> nat \<Rightarrow> bool" where
  "within_rel p q y n \<longleftrightarrow>
     p \<le> q \<and> ((q - p) * 2 ^ 16)\<^sup>2 \<le> (q * y)\<^sup>2 * n \<and> (q * y)\<^sup>2 * n \<le> ((q + p) * 2 ^ 16)\<^sup>2"

section \<open>Evaluation on integers\<close>

text \<open>
  The arithmetic reading once more on \<open>int\<close>, with shifts in place of divisions and without the
  reductions modulo \<open>2^32\<close>: this is the form that evaluates fast on numerals. A step returns
  \<open>-1\<close> where the reduction it leaves out could matter, that is unless \<open>0 \<le> y \<le> 2^16\<close>
  (\<open>y < 2^16\<close> in the optimal variant, which masks \<open>y\<close>) and the Q16 product \<open>x * y\<^sup>2\<close> is at most
  \<open>3 * 2^16\<close>. The lemmas below prove that a result other than \<open>-1\<close> is the value of the arithmetic
  reading, hence of the source function.
\<close>

subsection \<open>Seed\<close>

definition rsqrt_table_int :: "int list" where
  "rsqrt_table_int =
     [65535, 46341, 32768, 23170, 16384, 11585, 8192, 5793, 4096, 2896, 2048, 1448, 1024, 724,
      512, 362, 256, 181, 128, 90, 64, 45, 32, 23, 16, 11, 8, 6, 4, 3, 2, 1]"

function highest_bit_int :: "int \<Rightarrow> nat" where
  "highest_bit_int x = (if x \<le> 1 then 0 else Suc (highest_bit_int (drop_bit 1 x)))"
  by pat_completeness auto
termination
  by (relation "measure nat") (auto simp: drop_bit_eq_div)

declare highest_bit_int.simps [simp del]

definition interpolate_int :: "int \<Rightarrow> int \<Rightarrow> int \<Rightarrow> int" where
  "interpolate_int yb yn fr = yb - drop_bit 16 ((yb - yn) * fr)"

definition frac_int :: "nat \<Rightarrow> int \<Rightarrow> int" where
  "frac_int e x = drop_bit e (push_bit 16 (x - 2 ^ e))"

definition seed_at_int :: "nat \<Rightarrow> int \<Rightarrow> int" where
  "seed_at_int e x =
     interpolate_int (rsqrt_table_int ! e) (if e < 31 then rsqrt_table_int ! Suc e else 1)
       (frac_int e x)"

definition seed_int :: "int \<Rightarrow> int" where
  "seed_int x = seed_at_int (highest_bit_int x) x"

subsection \<open>Newton steps and the two pipelines\<close>

definition step_ref_term :: "int \<Rightarrow> int \<Rightarrow> int" where
  "step_ref_term y t = (if t \<le> 196608 then drop_bit 17 (y * (196608 - t) + 65536) else - 1)"

definition step_ref_int :: "int \<Rightarrow> int \<Rightarrow> int" where
  "step_ref_int y x =
     (if 0 \<le> y \<and> y \<le> 65536 then step_ref_term y (drop_bit 16 (x * (y * y) + 32768)) else - 1)"

definition combine_opt_int :: "int \<Rightarrow> int \<Rightarrow> int" where
  "combine_opt_int y tm = drop_bit 1 (drop_bit 16 tm * y) + drop_bit 17 (y * take_bit 16 tm)"

definition step_opt_term :: "int \<Rightarrow> int \<Rightarrow> int" where
  "step_opt_term y t = (if t \<le> 196608 then combine_opt_int y (196608 - t) else - 1)"

definition step_opt_int :: "int \<Rightarrow> int \<Rightarrow> int" where
  "step_opt_int y x =
     (if 0 \<le> y \<and> y < 65536 then step_opt_term y (drop_bit 16 (x * (y * y))) else - 1)"

definition rsqrt_ref_int :: "int \<Rightarrow> int" where
  "rsqrt_ref_int x = step_ref_int (step_ref_int (seed_int x) x) x"

definition rsqrt_opt_int :: "int \<Rightarrow> int" where
  "rsqrt_opt_int x = step_opt_int (seed_int x) x"

subsection \<open>The error bound on integers\<close>

text \<open>
  \<open>err_ref y x\<close> is \<open>within_rel 1 1000 y x\<close> and \<open>err_opt y x\<close> is \<open>within_rel 5 1000 y x\<close> with the
  constants worked out: \<open>(999 * 2^16)\<^sup>2 \<le> 10^6 * (y\<^sup>2 * x) \<le> (1001 * 2^16)\<^sup>2\<close> holds exactly when
  \<open>y\<^sup>2 * x\<close> lies between \<open>4286381657\<close> and \<open>4303561525\<close>, and likewise for \<open>995\<close> and \<open>1005\<close>.
\<close>

definition in_range :: "int \<Rightarrow> int \<Rightarrow> int \<Rightarrow> bool" where
  "in_range lo v hi \<longleftrightarrow> lo \<le> v \<and> v \<le> hi"

definition err_ref :: "int \<Rightarrow> int \<Rightarrow> bool" where
  "err_ref y x \<longleftrightarrow> in_range 4286381657 (y * y * x) 4303561525"

definition err_opt :: "int \<Rightarrow> int \<Rightarrow> bool" where
  "err_opt y x \<longleftrightarrow> in_range 4252124998 (y * y * x) 4338024343"

subsection \<open>Checking a range of inputs\<close>

text \<open>
  \<open>scan s f ok lo hi m\<close> walks \<open>lo, ..., hi - 1\<close> with the least value \<open>m\<close> seen so far: each
  \<open>f x\<close> has to be non-negative, at most \<open>m + s\<close> and accepted by \<open>ok\<close>. It returns the least
  value at the end, or \<open>-1\<close> if a check failed. With \<open>s = 0\<close> this checks that \<open>f\<close> never
  increases.

  Beyond the small inputs the results change rarely. A run is an interval \<open>a, ..., b\<close> on which
  the seed (and, in the reference variant, the result of the first Newton step) is the same
  at both ends; on a run the result does not increase, so only its two ends are evaluated.
  \<open>run_ref a b\<close> and \<open>run_opt a b\<close> return the results at \<open>a\<close> and at \<open>b\<close>, or \<open>(-1, -1)\<close> if
  \<open>a, ..., b\<close> is not a run. \<open>runs s r a hi m bs\<close> walks the consecutive runs that start at \<open>a\<close>
  and end at the numbers listed in \<open>bs\<close>, and checks that they fill \<open>a, ..., hi - 1\<close>.
\<close>

definition next_min :: "int \<Rightarrow> (int \<Rightarrow> int \<Rightarrow> bool) \<Rightarrow> int \<Rightarrow> int \<Rightarrow> int \<Rightarrow> int"
  where
  "next_min s ok x m y = (if 0 \<le> y \<and> y \<le> m + s \<and> ok y x then min m y else - 1)"

function scan ::
  "int \<Rightarrow> (int \<Rightarrow> int) \<Rightarrow> (int \<Rightarrow> int \<Rightarrow> bool) \<Rightarrow> int \<Rightarrow> int \<Rightarrow> int \<Rightarrow> int" where
  "scan s f ok lo hi m =
     (if lo < hi \<and> 0 \<le> m then scan s f ok (lo + 1) hi (next_min s ok lo m (f lo)) else m)"
  by pat_completeness auto
termination
  by (relation "measure (\<lambda>(s, f, ok, lo, hi, m). nat (hi - lo))") auto

declare scan.simps [simp del]

definition run_ref_steps :: "int \<Rightarrow> int \<Rightarrow> int \<Rightarrow> int \<Rightarrow> int \<times> int" where
  "run_ref_steps a b ya yb =
     (if ya = yb then (step_ref_int ya a, step_ref_int ya b) else (- 1, - 1))"

definition run_ref_seeds :: "int \<Rightarrow> int \<Rightarrow> int \<Rightarrow> int \<Rightarrow> int \<times> int" where
  "run_ref_seeds a b sa sb =
     (if sa = sb then run_ref_steps a b (step_ref_int sa a) (step_ref_int sa b) else (- 1, - 1))"

definition run_ref :: "int \<Rightarrow> int \<Rightarrow> int \<times> int" where
  "run_ref a b = run_ref_seeds a b (seed_int a) (seed_int b)"

definition run_opt_seeds :: "int \<Rightarrow> int \<Rightarrow> int \<Rightarrow> int \<Rightarrow> int \<times> int" where
  "run_opt_seeds a b sa sb =
     (if sa = sb then (step_opt_int sa a, step_opt_int sa b) else (- 1, - 1))"

definition run_opt :: "int \<Rightarrow> int \<Rightarrow> int \<times> int" where
  "run_opt a b = run_opt_seeds a b (seed_int a) (seed_int b)"

definition next_min_run :: "int \<Rightarrow> int \<Rightarrow> int \<times> int \<Rightarrow> int" where
  "next_min_run s m z =
     (if 0 \<le> snd z \<and> snd z \<le> fst z \<and> fst z \<le> m + s then min m (snd z) else - 1)"

fun runs :: "int \<Rightarrow> (int \<Rightarrow> int \<Rightarrow> int \<times> int) \<Rightarrow> int \<Rightarrow> int \<Rightarrow> int \<Rightarrow> int list \<Rightarrow> int" where
  "runs s r a hi m [] = (if a = hi then m else - 1)"
| "runs s r a hi m (b # bs) =
     (if a \<le> b \<and> b < hi \<and> 0 \<le> m then runs s r (b + 1) hi (next_min_run s m (r a b)) bs
      else - 1)"

text \<open>
  What a successful scan or walk establishes for \<open>f\<close> on \<open>lo, ..., hi - 1\<close>: every value lies
  between the returned least value \<open>v\<close> and \<open>m + s\<close>, and a later value exceeds an earlier one
  by at most \<open>s\<close>.
\<close>

definition descends :: "int \<Rightarrow> (int \<Rightarrow> int) \<Rightarrow> int \<Rightarrow> int \<Rightarrow> int \<Rightarrow> int \<Rightarrow> bool" where
  "descends s f lo hi m v \<longleftrightarrow>
     v \<le> m \<and> (\<forall>x. lo \<le> x \<and> x < hi \<longrightarrow>
        v \<le> f x \<and> f x \<le> m + s \<and> (\<forall>x'. x \<le> x' \<and> x' < hi \<longrightarrow> f x' \<le> f x + s))"

subsection \<open>Run end points\<close>

text \<open>
  The ends of the runs of the reference variant on \<open>17353, ..., 2^30 - 1\<close> and on
  \<open>2^30, ..., 2^32 - 1\<close>, and of the optimal variant on \<open>6055, ..., 2^32 - 1\<close>, in pieces that
  are checked one by one.
\<close>

definition run_ends_ref_low_1 :: "int list" where
  "run_ends_ref_low_1 =
     [17367, 17414, 17476, 17484, 17552, 17585, 17623, 17691, 17694, 17695, 17764, 17803, 17836,
      17905, 17913, 17978, 18022, 18052, 18122, 18131, 18197, 18240, 18272, 18343, 18350, 18419,
      18459, 18495, 18567, 18568, 18572, 18644, 18677, 18722, 18786, 18800, 18874, 18896, 18953,
      19005, 19032, 19106, 19114, 19187, 19223, 19268, 19333, 19350, 19425, 19442, 19508, 19551,
      19592, 19660, 19675, 19752, 19770, 19837, 19879, 19922, 19988, 20009, 20087, 20097, 20174,
      20206, 20261, 20316, 20349, 20425, 20438, 20518, 20534, 20608, 20643, 20698, 20753, 20789,
      20862, 20881, 20963, 20971, 20973, 21056, 21080, 21149, 21189, 21243, 21299, 21338, 21408,
      21433, 21517, 21529, 21614, 21626, 21711, 21736, 21809, 21845, 21907, 21954, 22006, 22063,
      22106, 22173, 22206, 22282, 22308, 22391, 22409, 22499, 22500, 22512, 22602, 22609, 22615,
      22706, 22719, 22811, 22828, 22916, 22937, 23022, 23046, 23129, 23156, 23236, 23265, 23344,
      23374, 23453, 23483, 23563, 23592, 23673, 23702, 23784, 23811, 23896, 23920, 24009, 24029,
      24123, 24139, 24237, 24248, 24251, 24352, 24357, 24367, 24466, 24483, 24575, 24600, 24685,
      24718, 24794, 24836, 24903, 24956, 25012, 25076, 25122, 25198, 25231, 25320, 25340, 25443,
      25449, 25458, 25559, 25582, 25668, 25707, 25777, 25833, 25886, 25960, 25995, 26088, 26105,
      26214, 26232, 26323, 26361, 26432, 26492, 26542, 26624, 26651, 26757, 26760, 26772, 26869,
      26906, 26978, 27041, 27088, 27177, 27197, 27306, 27329, 27415, 27467, 27525, 27606, 27634,
      27743]"

definition run_ends_ref_low_2 :: "int list" where
  "run_ends_ref_low_2 =
     [27761, 27852, 27902, 27962, 28045, 28071, 28180, 28203, 28289, 28348, 28398, 28494, 28508,
      28617, 28655, 28726, 28803, 28835, 28945, 28966, 29054, 29117, 29163, 29269, 29272, 29282,
      29381, 29435, 29491, 29590, 29600, 29602, 29709, 29758, 29818, 29915, 29928, 30037, 30085,
      30146, 30244, 30255, 30365, 30416, 30474, 30578, 30583, 30588, 30692, 30752, 30801, 30911,
      30926, 31020, 31092, 31129, 31238, 31268, 31348, 31437, 31457, 31566, 31615, 31675, 31784,
      31792, 31894, 31966, 32003, 32112, 32145, 32221, 32322, 32331, 32440, 32503, 32549, 32658,
      32684, 32767, 32865, 33046, 33077, 33230, 33386, 33416, 33600, 33695, 33789, 33974, 34004,
      34166, 34313, 34360, 34549, 34622, 34745, 34931, 34944, 35136, 35241, 35338, 35531, 35550,
      35736, 35859, 35943, 36140, 36168, 36351, 36477, 36563, 36764, 36786, 36979, 37095, 37197,
      37401, 37404, 37417, 37622, 37714, 37846, 38023, 38071, 38281, 38332, 38510, 38641, 38741,
      38950, 38975, 39189, 39259, 39427, 39568, 39667, 39878, 39908, 40129, 40187, 40375, 40496,
      40623, 40805, 40874, 41100, 41114, 41126, 41355, 41423, 41612, 41732, 41872, 42041, 42134,
      42351, 42399, 42635, 42660, 42666, 42905, 42969, 43177, 43278, 43451, 43587, 43728, 43896,
      44008, 44205, 44290, 44515, 44575, 44824, 44863, 45118, 45133, 45154, 45411, 45442, 45447,
      45707, 45751, 46006, 46060, 46307, 46369, 46612, 46678, 46920, 46988, 47231, 47297, 47544,
      47606, 47862, 47915, 48181, 48224, 48505, 48533, 48546, 48832, 48842, 48873, 49151, 49203,
      49461]"

definition run_ends_ref_low_3 :: "int list" where
  "run_ends_ref_low_3 =
     [49537, 49770, 49874, 50079, 50215, 50388, 50560, 50697, 50907, 51006, 51259, 51315, 51614,
      51625, 51657, 51934, 52017, 52243, 52379, 52552, 52746, 52861, 53117, 53170, 53479, 53535,
      53788, 53914, 54098, 54297, 54407, 54684, 54716, 54727, 55025, 55119, 55334, 55516, 55643,
      55916, 55952, 55958, 56262, 56364, 56571, 56773, 56880, 57187, 57189, 57227, 57498, 57647,
      57807, 58071, 58116, 58425, 58538, 58735, 58972, 59044, 59353, 59446, 59662, 59890, 59971,
      60280, 60372, 60589, 60827, 60899, 61208, 61315, 61517, 61781, 61826, 62135, 62278, 62444,
      62753, 62775, 63062, 63258, 63372, 63681, 63762, 63990, 64256, 64299, 64608, 64768, 64917,
      65226, 65280, 65535, 65792, 66304, 66409, 66828, 67283, 67358, 67883, 68157, 68425, 68956,
      69031, 69511, 69905, 70074, 70617, 70778, 71193, 71652, 71776, 72333, 72526, 72929, 73400,
      73533, 74104, 74274, 74723, 75147, 75349, 75933, 76021, 76575, 76895, 77225, 77769, 77884,
      78489, 78643, 79163, 79517, 79847, 80390, 80538, 81167, 81264, 81876, 82138, 82594, 83012,
      83323, 83886, 84059, 84722, 84759, 84807, 85477, 85633, 86243, 86507, 87019, 87381, 87805,
      88255, 88603, 89128, 89411, 90002, 90231, 90876, 91060, 91750, 91903, 92624, 92756, 93498,
      93623, 94371, 94500, 95245, 95391, 96119, 96293, 96993, 97209, 97867, 98138, 98740, 99081,
      99614, 100036, 100488, 101005, 101362, 101990, 102236, 102988, 103109, 103111, 103983,
      104127, 104857, 105157, 105731, 106203, 106605, 107263, 107479, 108341, 108352, 108467,
      109226, 109563, 110100, 110675, 110974]"

definition run_ends_ref_low_4 :: "int list" where
  "run_ends_ref_low_4 =
     [111805, 111848, 111925, 112721, 113074, 113595, 114241, 114469, 115343, 115541, 116217,
      116746, 117090, 117964, 118076, 118838, 119322, 119712, 120586, 120681, 121460, 121970,
      122333, 123207, 123357, 124081, 124690, 124955, 125829, 126106, 126702, 127483, 127576,
      128450, 128928, 129324, 130198, 130376, 131071, 131825, 133273, 133545, 134770, 136019,
      136292, 137790, 138491, 139363, 140887, 140965, 142513, 143437, 144169, 145745, 145911,
      147456, 148383, 149197, 150829, 150857, 150971, 152630, 153329, 154463, 155803, 156329,
      158048, 158275, 159979, 160749, 161946, 163221, 163950, 165695, 165990, 167834, 168167,
      169946, 170641, 172099, 173113, 174294, 175587, 176528, 178061, 178809, 180533, 181131,
      183007, 183502, 185479, 185916, 187953, 188379, 190425, 190892, 192899, 193455, 195371,
      196071, 197845, 198739, 200317, 201463, 202791, 204242, 205263, 207080, 207737, 209975,
      210209, 210335, 212683, 213304, 215155, 216334, 217629, 219431, 220103, 222575, 222949,
      225049, 226190, 227521, 229501, 229995, 232467, 233219, 234941, 236689, 237413, 239887,
      240525, 242359, 244163, 244833, 247305, 248119, 249779, 251931, 252251, 254725, 256005,
      257197, 259671, 260098, 262143, 264193, 268289, 269043, 272580, 275943, 276973, 281266,
      282839, 285873, 289739, 290592, 295097, 296639, 300045, 303535, 305120, 309849, 310435,
      315171, 317335, 320632, 324231, 326233, 331131, 331984, 337213, 338027, 343251, 344927,
      349453, 351827, 355824, 358723, 362371, 365623, 369101, 372523, 376019, 379419, 383133,
      386319, 390451, 393215, 397979, 400115, 405725, 407015, 413705, 413911, 414706, 420811,
      422958, 427711, 431458, 434607, 440216, 441507, 448407, 450217, 455303, 459561, 462203]"

definition run_ends_ref_low_5 :: "int list" where
  "run_ends_ref_low_5 =
     [469099, 470021, 475999, 480006, 482899, 489795, 490924, 496695, 501588, 503595, 510491,
      512956, 517391, 524287, 524348, 536137, 544455, 548318, 560506, 564623, 573528, 584783,
      587005, 600053, 604951, 614479, 625119, 629431, 643418, 645279, 659423, 665447, 676036,
      685607, 693279, 705775, 711191, 725943, 729809, 746103, 749159, 766271, 769299, 786431,
      790250, 806599, 812080, 826767, 834812, 846927, 858520, 867095, 883247, 887263, 907423,
      912011, 927591, 939137, 947751, 967478, 967919, 969823, 988087, 999617, 1008247, 1028415,
      1032203, 1048575, 1064967, 1097735, 1103775, 1133653, 1158959, 1171387, 1207429, 1214143,
      1248856, 1269343, 1292470, 1324527, 1338385, 1379711, 1386805, 1430833, 1434895, 1437888,
      1484282, 1490095, 1491853, 1540775, 1545279, 1548891, 1600463, 1609284, 1655647, 1673244,
      1710847, 1741102, 1766031, 1813175, 1821215, 1876399, 1898346, 1931599, 1980657, 1986783,
      2041967, 2073876, 2097151, 2168108, 2258495, 2268896, 2369739, 2419807, 2484927, 2581119,
      2608715, 2724629, 2742431, 2866605, 2903775, 3019919, 3065087, 3185820, 3226399, 3365731,
      3387711, 3391667, 3549055, 3590194, 3710367, 3806625, 3871679, 4032991, 4063442, 4194303,
      4325407, 4587551, 4660351, 4901799, 5126399, 5249397, 5567538, 5592447, 5635277, 5987504,
      6058495, 6065214, 6456508, 6524479, 6546183, 6982640, 6990527, 7086564, 7456575, 7696600,
      7922623, 8388607, 8472045, 9178075, 9587071, 10083945, 10785407, 11130494, 11983743,
      12348047, 13182207, 13775903, 14380543, 15465383, 15578879, 15735783, 16777215, 17825919,
      19923071, 20132863, 20361452, 22906579, 23488255, 26608786, 26843647, 27369035, 30199039,
      32311751, 33554431, 38722297, 44739583, 47244574, 55834378, 55924223, 58915650, 67108863,
      75497983, 92275199, 100663295, 125217227, 134217727, 139188451, 178957880, 201326591,
      206159216, 268435455, 335546367, 469764095, 536870911, 636292664, 954440817, 1073741823]"

definition run_ends_ref_high :: "int list" where
  "run_ends_ref_high =
     [1610620927, 2147483647, 4294967295]"

definition run_ends_opt_1 :: "int list" where
  "run_ends_opt_1 =
     [6062, 6075, 6089, 6103, 6116, 6130, 6143, 6157, 6171, 6184, 6198, 6212, 6225, 6239, 6253,
      6266, 6280, 6294, 6307, 6321, 6335, 6348, 6362, 6376, 6389, 6403, 6417, 6430, 6444, 6458,
      6471, 6485, 6498, 6512, 6526, 6539, 6553, 6567, 6580, 6594, 6608, 6621, 6635, 6649, 6662,
      6676, 6690, 6703, 6717, 6731, 6744, 6758, 6772, 6785, 6799, 6813, 6826, 6840, 6853, 6867,
      6881, 6894, 6908, 6922, 6935, 6949, 6963, 6976, 6990, 7004, 7017, 7031, 7045, 7058, 7072,
      7086, 7099, 7113, 7127, 7140, 7154, 7167, 7181, 7195, 7208, 7222, 7236, 7249, 7263, 7277,
      7290, 7304, 7318, 7331, 7345, 7359, 7372, 7386, 7400, 7413, 7427, 7441, 7454, 7468, 7482,
      7495, 7509, 7522, 7536, 7550, 7563, 7577, 7591, 7604, 7618, 7632, 7645, 7659, 7673, 7686,
      7700, 7714, 7727, 7741, 7755, 7768, 7782, 7796, 7809, 7823, 7837, 7850, 7864, 7877, 7891,
      7905, 7918, 7932, 7946, 7959, 7973, 7987, 8000, 8014, 8028, 8041, 8055, 8069, 8082, 8096,
      8110, 8123, 8137, 8151, 8164, 8178, 8191, 8230, 8269, 8307, 8346, 8385, 8423, 8462, 8501,
      8539, 8578, 8617, 8655, 8694, 8732, 8771, 8810, 8848, 8887, 8926, 8964, 9003, 9042, 9080,
      9119, 9158, 9196, 9235, 9273, 9312, 9351, 9389, 9428, 9467, 9505, 9544, 9583, 9621, 9660,
      9699, 9737, 9776, 9814, 9853, 9892, 9930, 9969, 10008, 10046, 10085, 10124, 10162, 10201,
      10239, 10278, 10317, 10355, 10394, 10433, 10471, 10510, 10549, 10587, 10626, 10665]"

definition run_ends_opt_2 :: "int list" where
  "run_ends_opt_2 =
     [10703, 10742, 10780, 10819, 10858, 10896, 10935, 10974, 11012, 11051, 11090, 11128, 11167,
      11206, 11244, 11283, 11321, 11360, 11399, 11437, 11476, 11515, 11553, 11592, 11631, 11669,
      11708, 11747, 11785, 11824, 11862, 11901, 11940, 11978, 12017, 12056, 12094, 12133, 12172,
      12210, 12249, 12287, 12326, 12365, 12403, 12442, 12481, 12519, 12558, 12597, 12635, 12674,
      12713, 12751, 12790, 12828, 12867, 12906, 12944, 12983, 13022, 13060, 13099, 13138, 13176,
      13215, 13254, 13292, 13331, 13369, 13408, 13447, 13485, 13524, 13563, 13601, 13640, 13679,
      13717, 13756, 13795, 13833, 13872, 13910, 13949, 13988, 14026, 14065, 14104, 14142, 14181,
      14220, 14258, 14297, 14335, 14374, 14413, 14451, 14490, 14529, 14567, 14606, 14645, 14683,
      14722, 14761, 14799, 14838, 14876, 14915, 14954, 14992, 15031, 15070, 15108, 15147, 15186,
      15224, 15263, 15302, 15340, 15379, 15417, 15456, 15495, 15533, 15572, 15611, 15649, 15688,
      15727, 15765, 15804, 15843, 15881, 15920, 15958, 15997, 16036, 16074, 16113, 16152, 16190,
      16229, 16268, 16306, 16345, 16383, 16493, 16602, 16711, 16820, 16930, 17039, 17148, 17257,
      17367, 17476, 17585, 17694, 17803, 17913, 18022, 18131, 18240, 18350, 18459, 18568, 18677,
      18786, 18896, 19005, 19114, 19223, 19333, 19442, 19551, 19660, 19770, 19879, 19988, 20097,
      20206, 20316, 20425, 20534, 20643, 20753, 20862, 20971, 21080, 21189, 21299, 21408, 21517,
      21626, 21736, 21845, 21954, 22063, 22173, 22282, 22391, 22500, 22609, 22719, 22828, 22937,
      23046, 23156, 23265, 23374, 23483, 23592, 23702, 23811, 23920, 24029, 24139, 24248, 24357]"

definition run_ends_opt_3 :: "int list" where
  "run_ends_opt_3 =
     [24466, 24575, 24685, 24794, 24903, 25012, 25122, 25231, 25340, 25449, 25559, 25668, 25777,
      25886, 25995, 26105, 26214, 26323, 26432, 26542, 26651, 26760, 26869, 26978, 27088, 27197,
      27306, 27415, 27525, 27634, 27743, 27852, 27962, 28071, 28180, 28289, 28398, 28508, 28617,
      28726, 28835, 28945, 29054, 29163, 29272, 29381, 29491, 29600, 29709, 29818, 29928, 30037,
      30146, 30255, 30365, 30474, 30583, 30692, 30801, 30911, 31020, 31129, 31238, 31348, 31457,
      31566, 31675, 31784, 31894, 32003, 32112, 32221, 32331, 32440, 32549, 32658, 32767, 33077,
      33386, 33695, 34004, 34313, 34622, 34931, 35241, 35550, 35859, 36168, 36477, 36786, 37095,
      37404, 37714, 38023, 38332, 38641, 38950, 39259, 39568, 39878, 40187, 40496, 40805, 41114,
      41423, 41732, 42041, 42351, 42660, 42969, 43278, 43587, 43896, 44205, 44515, 44824, 45133,
      45442, 45751, 46060, 46369, 46678, 46988, 47297, 47606, 47915, 48224, 48533, 48842, 49151,
      49461, 49770, 50079, 50388, 50697, 51006, 51315, 51625, 51934, 52243, 52552, 52861, 53170,
      53479, 53788, 54098, 54407, 54716, 55025, 55334, 55643, 55952, 56262, 56571, 56880, 57189,
      57498, 57807, 58116, 58425, 58735, 59044, 59353, 59662, 59971, 60280, 60589, 60899, 61208,
      61517, 61826, 62135, 62444, 62753, 63062, 63372, 63681, 63990, 64299, 64608, 64917, 65226,
      65535, 66409, 67283, 68157, 69031, 69905, 70778, 71652, 72526, 73400, 74274, 75147, 76021,
      76895, 77769, 78643, 79517, 80390, 81264, 82138, 83012, 83886, 84759, 85633, 86507, 87381,
      88255, 89128, 90002, 90876, 91750, 92624, 93498, 94371, 95245, 96119, 96993, 97867, 98740]"

definition run_ends_opt_4 :: "int list" where
  "run_ends_opt_4 =
     [99614, 100488, 101362, 102236, 103109, 103983, 104857, 105731, 106605, 107479, 108352,
      109226, 110100, 110974, 111848, 112721, 113595, 114469, 115343, 116217, 117090, 117964,
      118838, 119712, 120586, 121460, 122333, 123207, 124081, 124955, 125829, 126702, 127576,
      128450, 129324, 130198, 131071, 133545, 136019, 138491, 140965, 143437, 145911, 148383,
      150857, 153329, 155803, 158275, 160749, 163221, 165695, 168167, 170641, 173113, 175587,
      178061, 180533, 183007, 185479, 187953, 190425, 192899, 195371, 197845, 200317, 202791,
      205263, 207737, 210209, 212683, 215155, 217629, 220103, 222575, 225049, 227521, 229995,
      232467, 234941, 237413, 239887, 242359, 244833, 247305, 249779, 252251, 254725, 257197,
      259671, 262143, 269043, 275943, 282839, 289739, 296639, 303535, 310435, 317335, 324231,
      331131, 338027, 344927, 351827, 358723, 365623, 372523, 379419, 386319, 393215, 400115,
      407015, 413911, 420811, 427711, 434607, 441507, 448407, 455303, 462203, 469099, 475999,
      482899, 489795, 496695, 503595, 510491, 517391, 524287, 544455, 564623, 584783, 604951,
      625119, 645279, 665447, 685607, 705775, 725943, 746103, 766271, 786431, 806599, 826767,
      846927, 867095, 887263, 907423, 927591, 947751, 967919, 988087, 1008247, 1028415, 1048575,
      1103775, 1158959, 1214143, 1269343, 1324527, 1379711, 1434895, 1490095, 1545279, 1600463,
      1655647, 1710847, 1766031, 1821215, 1876399, 1931599, 1986783, 2041967, 2097151, 2258495,
      2419807, 2581119, 2742431, 2903775, 3065087, 3226399, 3387711, 3549055, 3710367, 3871679,
      4032991, 4194303, 4660351, 5126399, 5592447, 6058495, 6524479, 6990527, 7456575, 7922623,
      8388607, 9587071, 10785407, 11983743, 13182207, 14380543, 15578879, 16777215, 20132863,
      23488255, 26843647, 30199039, 33554431, 44739583, 55924223, 67108863, 100663295, 134217727,
      201326591, 268435455, 536870911, 1073741823, 2147483647, 4294967295]"

section \<open>Word arithmetic\<close>

lemma drop_bit_zero_iff_unat:
  fixes w :: "'a::len word"
  shows "drop_bit k w = 0 \<longleftrightarrow> unat w < 2 ^ k"
proof -
  have "drop_bit k w = 0 \<longleftrightarrow> unat (drop_bit k w) = 0"
    by (simp add: unat_eq_0)
  also have "\<dots> \<longleftrightarrow> unat w div 2 ^ k = 0"
    unfolding unat_drop_bit_eq by (simp only: drop_bit_eq_div)
  also have "\<dots> \<longleftrightarrow> unat w < 2 ^ k"
    by (simp add: div_eq_0_iff)
  finally show ?thesis .
qed

lemma unat_push_bit_small:
  fixes w :: u32
  assumes "unat w < 2 ^ (32 - c)" and "c \<le> 32"
  shows "unat (push_bit c w) = unat w * 2 ^ c"
proof -
  have "unat w * 2 ^ c < 2 ^ (32 - c) * 2 ^ c"
    using assms(1) by simp
  also have "\<dots> = 2 ^ 32"
    using assms(2) by (simp flip: power_add)
  finally have "unat w * 2 ^ c < 2 ^ 32" .
  have "unat (push_bit c w) = take_bit 32 (push_bit c (unat w))"
    by (simp add: unsigned_push_bit_eq)
  also have "\<dots> = unat w * 2 ^ c"
    using \<open>unat w * 2 ^ c < 2 ^ 32\<close> by (simp add: push_bit_eq_mult take_bit_eq_mod)
  finally show ?thesis .
qed

lemma clz_stage:
  assumes inv: "clz_inv x (32 - 2 * c) m s" and c: "0 < c" "c \<le> 16" and m: "m + c < 2 ^ 32"
    and cw: "unat cw = c"
  shows "clz_inv x (32 - c) (m + c)
           (if drop_bit (32 - c) (snd s) = 0 then (fst s + cw, push_bit c (snd s)) else s)"
proof (cases "drop_bit (32 - c) (snd s) = 0")
  case False
  then have "2 ^ (32 - c) \<le> unat (snd s)"
    by (simp add: drop_bit_zero_iff_unat)
  with inv False show ?thesis
    by (simp add: clz_inv_def)
next
  case True
  then have small: "unat (snd s) < 2 ^ (32 - c)"
    by (simp add: drop_bit_zero_iff_unat)
  from inv have n: "unat (fst s) \<le> m" and eq: "unat (snd s) = unat x * 2 ^ unat (fst s)"
    and lo: "2 ^ (32 - 2 * c) \<le> unat (snd s)"
    by (simp_all add: clz_inv_def)
  have un: "unat (fst s + cw) = unat (fst s) + c"
    using n m cw by (simp add: unat_word_ariths)
  have sh: "unat (push_bit c (snd s)) = unat (snd s) * 2 ^ c"
    using small c by (intro unat_push_bit_small) simp_all
  have "(2::nat) ^ (32 - c) = 2 ^ (32 - 2 * c) * 2 ^ c"
    using c by (simp flip: power_add)
  also have "\<dots> \<le> unat (snd s) * 2 ^ c"
    using lo by simp
  finally have "2 ^ (32 - c) \<le> unat (push_bit c (snd s))"
    by (simp add: sh)
  with True n show ?thesis
    by (simp add: clz_inv_def un sh eq power_add)
qed

lemma clz32_final:
  assumes "x \<noteq> 0"
  shows "unat (clz32 x) \<le> 31 \<and> 2 ^ 31 \<le> unat x * 2 ^ unat (clz32 x)
         \<and> unat x * 2 ^ unat (clz32 x) < 2 ^ 32"
proof -
  define s0 where "s0 = (0 :: u32, x)"
  define s1 where "s1 = (if drop_bit 16 (snd s0) = 0 then (fst s0 + 16, push_bit 16 (snd s0)) else s0)"
  define s2 where "s2 = (if drop_bit 24 (snd s1) = 0 then (fst s1 + 8, push_bit 8 (snd s1)) else s1)"
  define s3 where "s3 = (if drop_bit 28 (snd s2) = 0 then (fst s2 + 4, push_bit 4 (snd s2)) else s2)"
  define s4 where "s4 = (if drop_bit 30 (snd s3) = 0 then (fst s3 + 2, push_bit 2 (snd s3)) else s3)"
  define s5 where "s5 = (if drop_bit 31 (snd s4) = 0 then (fst s4 + 1, snd s4) else s4)"
  have res: "clz32 x = fst s5"
    using assms unfolding clz32_def s5_def s4_def s3_def s2_def s1_def s0_def Let_def by simp
  have "0 < unat x"
    using assms by (simp add: unat_gt_0)
  then have i0: "clz_inv x 0 0 s0"
    by (simp add: clz_inv_def s0_def)
  have i1: "clz_inv x 16 16 s1"
    using clz_stage [where c = 16 and m = 0 and s = s0 and x = x and cw = 16] i0 by (simp add: s1_def split del: if_split)
  have i2: "clz_inv x 24 24 s2"
    using clz_stage [where c = 8 and m = 16 and s = s1 and x = x and cw = 8] i1 by (simp add: s2_def split del: if_split)
  have i3: "clz_inv x 28 28 s3"
    using clz_stage [where c = 4 and m = 24 and s = s2 and x = x and cw = 4] i2 by (simp add: s3_def split del: if_split)
  have i4: "clz_inv x 30 30 s4"
    using clz_stage [where c = 2 and m = 28 and s = s3 and x = x and cw = 2] i3 by (simp add: s4_def split del: if_split)
  from i4 have n4: "unat (fst s4) \<le> 30" and eq4: "unat (snd s4) = unat x * 2 ^ unat (fst s4)"
    and lo4: "2 ^ 30 \<le> unat (snd s4)"
    by (simp_all add: clz_inv_def)
  have hi4: "unat (snd s4) < 2 ^ 32"
    using unsigned_less [of "snd s4"] by simp
  show ?thesis
  proof (cases "drop_bit 31 (snd s4) = 0")
    case True
    then have small: "unat (snd s4) < 2 ^ 31"
      by (simp add: drop_bit_zero_iff_unat)
    have un: "unat (fst s4 + 1) = unat (fst s4) + 1"
      using n4 by (simp add: unat_word_ariths)
    from True have "clz32 x = fst s4 + 1"
      by (simp add: res s5_def)
    with un n4 eq4 lo4 small show ?thesis
      by simp
  next
    case False
    then have "2 ^ 31 \<le> unat (snd s4)"
      by (simp add: drop_bit_zero_iff_unat)
    moreover from False have "clz32 x = fst s4"
      by (simp add: res s5_def)
    ultimately show ?thesis
      using n4 eq4 hi4 by simp
  qed
qed

section \<open>The shift-add multiply is exact\<close>

lemma unat_ucast_32_64: "unat (ucast (b :: u32) :: u64) = unat b"
proof -
  have "unat b < 2 ^ 32"
    using unsigned_less [of b] by simp
  then have "unat b < 2 ^ 64"
    by simp
  then show ?thesis
    by (simp add: unsigned_ucast_eq take_bit_nat_eq_self)
qed

lemma and_1_iff_odd: "(b :: u32) AND 1 \<noteq> 0 \<longleftrightarrow> odd (unat b)"
proof -
  have "unat (b AND 1) = unat b AND 1"
    by (simp only: unsigned_and_eq unsigned_1)
  then have "unat (b AND 1) = unat b mod 2"
    by (simp only: and_one_eq)
  moreover have "b AND 1 = 0 \<longleftrightarrow> unat (b AND 1) = 0"
    by (simp add: unat_eq_0)
  ultimately show ?thesis
    by (simp add: odd_iff_mod_2_eq_one)
qed

lemma ucast_halve:
  fixes b :: u32
  shows "(ucast b :: u64) = 2 * ucast (drop_bit 1 b) + (if b AND 1 \<noteq> 0 then 1 else 0)"
proof -
  have d: "unat (drop_bit 1 b) = unat b div 2"
    unfolding unat_drop_bit_eq by (simp add: drop_bit_eq_div)
  have "(ucast b :: u64) = of_nat (unat b)"
    by simp
  also have "unat b = 2 * (unat b div 2) + (if odd (unat b) then 1 else 0)"
    by presburger
  also have "(of_nat \<dots> :: u64) = 2 * of_nat (unat (drop_bit 1 b)) + (if b AND 1 \<noteq> 0 then 1 else 0)"
    unfolding d and_1_iff_odd by simp
  finally show ?thesis
    by (simp only: of_nat_unat)
qed

lemma mul32_loop_eq: "mul32_loop acc aa b = acc + aa * ucast b"
proof (induction acc aa b rule: mul32_loop.induct)
  case (1 acc aa b)
  show ?case
  proof (cases "b = 0")
    case True
    then show ?thesis
      by (subst mul32_loop.simps) simp
  next
    case False
    have "mul32_loop acc aa b =
        mul32_loop (if b AND 1 \<noteq> 0 then acc + aa else acc) (push_bit 1 aa) (drop_bit 1 b)"
      using False by (subst mul32_loop.simps) simp
    also have "\<dots> = (if b AND 1 \<noteq> 0 then acc + aa else acc) + push_bit 1 aa * ucast (drop_bit 1 b)"
      using False by (rule "1.IH")
    also have "\<dots> = acc + aa * (2 * ucast (drop_bit 1 b) + (if b AND 1 \<noteq> 0 then 1 else 0))"
      by (simp add: push_bit_eq_mult algebra_simps)
    also have "\<dots> = acc + aa * ucast b"
      by (simp only: ucast_halve [symmetric])
    finally show ?thesis .
  qed
qed

lemma mul32_shift_add_word: "mul32_shift_add a b = ucast a * ucast b"
  by (simp add: mul32_shift_add_def mul32_loop_eq)

lemma unat_mul32_shift_add: "unat (mul32_shift_add a b) = unat a * unat b"
proof -
  have a: "unat a < 2 ^ 32" and b: "unat b < 2 ^ 32"
    using unsigned_less [of a] unsigned_less [of b] by simp_all
  have "unat a * unat b < 2 ^ 32 * 2 ^ 32"
    using a b by (intro mult_strict_mono) simp_all
  then have "unat a * unat b < 2 ^ 64"
    by simp
  then show ?thesis
    by (simp add: mul32_shift_add_word unat_word_ariths unat_ucast_32_64)
qed

section \<open>The nibble multiply is exact on 16-bit operands\<close>

lemma nat_and_15: "(n :: nat) AND 15 = n mod 16"
proof -
  have "(15 :: nat) = mask 4"
    by (simp add: mask_eq_exp_minus_1)
  then have "n AND 15 = take_bit 4 n"
    by (simp only: take_bit_eq_mask)
  then show ?thesis
    by (simp add: take_bit_eq_mod)
qed

lemma nat_and_65535: "(n :: nat) AND 65535 = n mod 65536"
proof -
  have "(65535 :: nat) = mask 16"
    by (simp add: mask_eq_exp_minus_1)
  then have "n AND 65535 = take_bit 16 n"
    by (simp only: take_bit_eq_mask)
  then show ?thesis
    by (simp add: take_bit_eq_mod)
qed

lemma unat_drop_bit_div: "unat (drop_bit k (w :: 'a::len word)) = unat w div 2 ^ k"
  unfolding unat_drop_bit_eq by (simp only: drop_bit_eq_div)

lemma unat_nibble: "unat (drop_bit s (b :: u32) AND 0xF) = unat b div 2 ^ s mod 16"
proof -
  have "unat (drop_bit s b AND 0xF) = unat (drop_bit s b) AND unat (0xF :: u32)"
    by (simp only: unsigned_and_eq)
  also have "\<dots> = unat (drop_bit s b) mod 16"
    by (simp add: nat_and_15)
  finally show ?thesis
    by (simp only: unat_drop_bit_div)
qed

lemma unat_low16: "unat ((b :: u32) AND 0xFFFF) = unat b mod 65536"
proof -
  have "unat (b AND 0xFFFF) = unat b AND unat (0xFFFF :: u32)"
    by (simp only: unsigned_and_eq)
  also have "\<dots> = unat b mod 65536"
    by (simp add: nat_and_65535)
  finally show ?thesis .
qed

lemma nibble_product_eq:
  assumes "unat nib < 16"
  shows "nibble_product a nib = a * nib"
proof -
  from assms have "unat nib = 0 \<or> unat nib = 1 \<or> unat nib = 2 \<or> unat nib = 3
      \<or> unat nib = 4 \<or> unat nib = 5 \<or> unat nib = 6 \<or> unat nib = 7
      \<or> unat nib = 8 \<or> unat nib = 9 \<or> unat nib = 10 \<or> unat nib = 11
      \<or> unat nib = 12 \<or> unat nib = 13 \<or> unat nib = 14 \<or> unat nib = 15"
    by arith
  then have "nib = 0 \<or> nib = 1 \<or> nib = 2 \<or> nib = 3 \<or> nib = 4 \<or> nib = 5 \<or> nib = 6
      \<or> nib = 7 \<or> nib = 8 \<or> nib = 9 \<or> nib = 10 \<or> nib = 11 \<or> nib = 12 \<or> nib = 13
      \<or> nib = 14 \<or> nib = 15"
    by (simp add: word_unat_eq_iff)
  then show ?thesis
    by (elim disjE) (simp_all add: nibble_product_def push_bit_eq_mult)
qed

lemma mul16_loop_unroll:
  "mul16_loop a b16 0 acc =
     acc + push_bit 0 (nibble_product a (drop_bit 0 b16 AND 0xF))
         + push_bit 4 (nibble_product a (drop_bit 4 b16 AND 0xF))
         + push_bit 8 (nibble_product a (drop_bit 8 b16 AND 0xF))
         + push_bit 12 (nibble_product a (drop_bit 12 b16 AND 0xF))"
  by (simp add: mul16_loop.simps)

lemma nat_nibbles: "(n :: nat) mod 65536 =
    n mod 16 + 16 * (n div 16 mod 16) + 256 * (n div 256 mod 16) + 4096 * (n div 4096 mod 16)"
proof -
  have "n mod 65536 = n mod (16 * 4096)"
    by simp
  also have "\<dots> = 16 * (n div 16 mod 4096) + n mod 16"
    by (simp only: mod_mult2_eq)
  also have "n div 16 mod 4096 = (n div 16) mod (16 * 256)"
    by simp
  also have "\<dots> = 16 * (n div 16 div 16 mod 256) + n div 16 mod 16"
    by (simp only: mod_mult2_eq)
  also have "n div 16 div 16 mod 256 = (n div 256) mod (16 * 16)"
    by (simp add: div_mult2_eq [symmetric])
  also have "\<dots> = 16 * (n div 256 div 16 mod 16) + n div 256 mod 16"
    by (simp only: mod_mult2_eq)
  also have "n div 256 div 16 = n div 4096"
    by (simp add: div_mult2_eq [symmetric])
  finally show ?thesis
    by simp
qed

lemma word_nibbles:
  fixes b :: u32
  shows "b AND 0xFFFF = (drop_bit 0 b AND 0xF) + 16 * (drop_bit 4 b AND 0xF)
      + 256 * (drop_bit 8 b AND 0xF) + 4096 * (drop_bit 12 b AND 0xF)"
proof -
  have "b AND 0xFFFF = of_nat (unat (b AND 0xFFFF))"
    by simp
  also have "\<dots> = of_nat (unat b mod 16 + 16 * (unat b div 16 mod 16)
      + 256 * (unat b div 256 mod 16) + 4096 * (unat b div 4096 mod 16))"
    by (simp only: unat_low16 nat_nibbles)
  also have "\<dots> = of_nat (unat (drop_bit 0 b AND 0xF)) + 16 * of_nat (unat (drop_bit 4 b AND 0xF))
      + 256 * of_nat (unat (drop_bit 8 b AND 0xF)) + 4096 * of_nat (unat (drop_bit 12 b AND 0xF))"
    by (simp add: unat_nibble unat_nibble [of 0, simplified] unat_drop_bit_div del: of_nat_unat)
  finally show ?thesis
    by simp
qed

lemma unat_nibble_less: "unat (drop_bit s (b :: u32) AND 0xF) < 16"
  by (simp add: unat_nibble)

lemma mul16x16_32_word: "mul16x16_32 a b = (a AND 0xFFFF) * (b AND 0xFFFF)"
proof -
  have "mul16x16_32 a b =
      (a AND 0xFFFF) * ((drop_bit 0 b AND 0xF) + 16 * (drop_bit 4 b AND 0xF)
        + 256 * (drop_bit 8 b AND 0xF) + 4096 * (drop_bit 12 b AND 0xF))"
    unfolding mul16x16_32_def mul16_loop_unroll
    by (simp only: nibble_product_eq [OF unat_nibble_less] push_bit_eq_mult) (simp add: algebra_simps)
  then show ?thesis
    by (simp only: word_nibbles [symmetric])
qed

lemma unat_mul16x16_32:
  "unat (mul16x16_32 a b) = (unat a mod 65536) * (unat b mod 65536)"
proof -
  have "unat a mod 65536 < 2 ^ 16" and "unat b mod 65536 < 2 ^ 16"
    by simp_all
  then have "(unat a mod 65536) * (unat b mod 65536) < 2 ^ 16 * 2 ^ 16"
    by (intro mult_strict_mono) simp_all
  then have "(unat a mod 65536) * (unat b mod 65536) < 2 ^ 32"
    by simp
  then show ?thesis
    by (simp add: mul16x16_32_word unat_word_ariths unat_low16)
qed

section \<open>The range locator\<close>

lemma bucket_bounds:
  assumes "x \<noteq> 0"
  shows "unat (bucket x) \<le> 31" and "2 ^ unat (bucket x) \<le> unat x"
    and "unat x < 2 ^ (unat (bucket x) + 1)"
proof -
  let ?n = "unat (clz32 x)"
  from clz32_final [OF assms] have n: "?n \<le> 31" and lo: "2 ^ 31 \<le> unat x * 2 ^ ?n"
    and hi: "unat x * 2 ^ ?n < 2 ^ 32"
    by simp_all
  have "clz32 x \<le> 31"
    using n by (simp add: word_le_nat_alt)
  then have e: "unat (bucket x) = 31 - ?n"
    by (simp add: bucket_def unat_sub)
  then show "unat (bucket x) \<le> 31"
    by simp
  have "(2::nat) ^ (31 - ?n) * 2 ^ ?n = 2 ^ 31"
    using n by (simp flip: power_add)
  with lo have "2 ^ (31 - ?n) * 2 ^ ?n \<le> unat x * 2 ^ ?n"
    by simp
  then show "2 ^ unat (bucket x) \<le> unat x"
    by (simp add: e)
  have "(2::nat) ^ (32 - ?n) * 2 ^ ?n = 2 ^ 32"
    using n by (simp flip: power_add)
  with hi have "unat x * 2 ^ ?n < 2 ^ (32 - ?n) * 2 ^ ?n"
    by simp
  then have "unat x < 2 ^ (32 - ?n)"
    by simp
  moreover have "32 - ?n = unat (bucket x) + 1"
    using n e by simp
  ultimately show "unat x < 2 ^ (unat (bucket x) + 1)"
    by simp
qed

lemma bucket_top:
  assumes "2 ^ 31 \<le> unat x"
  shows "bucket x = 31"
proof -
  from assms have nz: "x \<noteq> 0"
    by auto
  have lt: "(2::nat) ^ 31 < 2 ^ (unat (bucket x) + 1)"
    using assms bucket_bounds(3) [OF nz] by (rule le_less_trans)
  have "31 < unat (bucket x) + 1"
    by (rule power_less_imp_less_exp [OF _ lt]) simp
  with bucket_bounds(1) [OF nz] have "unat (bucket x) = 31"
    by simp
  then show ?thesis
    by (simp add: word_unat_eq_iff)
qed

lemma lut_in_range:
  assumes "unat i < 32"
  shows "lut rsqrt_table_ref i = Some (ucast (rsqrt_table_ref ! unat i))"
    and "lut rsqrt_table_opt i = Some (ucast (rsqrt_table_opt ! unat i))"
  using assms by (simp_all add: lut_def rsqrt_table_ref_def rsqrt_table_opt_def)

lemma unat_bucket_next:
  assumes "e < (31 :: u32)"
  shows "unat (e + 1) < 32"
proof -
  from assms have "unat e < 31"
    by (simp add: word_less_nat_alt)
  then show ?thesis
    by (simp add: unat_word_ariths)
qed

lemma table_reads_defined:
  assumes "x \<noteq> 0"
  shows "\<exists>b n. y_base_ref (bucket x) = Some b \<and> y_next_ref (bucket x) = Some n"
    and "\<exists>b n. y_base_opt (bucket x) = Some b \<and> y_next_opt (bucket x) = Some n"
proof -
  have e: "unat (bucket x) < 32"
    using bucket_bounds(1) [OF assms] by simp
  show "\<exists>b n. y_base_ref (bucket x) = Some b \<and> y_next_ref (bucket x) = Some n"
    using e unat_bucket_next [of "bucket x"]
    by (simp add: y_base_ref_def y_next_ref_def lut_in_range)
  show "\<exists>b n. y_base_opt (bucket x) = Some b \<and> y_next_opt (bucket x) = Some n"
    using e unat_bucket_next [of "bucket x"]
    by (simp add: y_base_opt_def y_next_opt_def lut_in_range)
qed

lemma fast_rsqrt_ref_defined: "\<exists>r. fast_rsqrt_ref x = Some r"
proof (cases "x = 0")
  case True
  then show ?thesis
    by (simp add: fast_rsqrt_ref_def)
next
  case False
  from table_reads_defined(1) [OF False] obtain b n
    where "y_base_ref (bucket x) = Some b" and "y_next_ref (bucket x) = Some n"
    by blast
  with False show ?thesis
    by (simp add: fast_rsqrt_ref_def seed_ref_def Let_def)
qed

lemma fast_rsqrt_opt_defined: "\<exists>r. fast_rsqrt_opt x = Some r"
proof (cases "x = 0")
  case True
  then show ?thesis
    by (simp add: fast_rsqrt_opt_def)
next
  case False
  from table_reads_defined(2) [OF False] obtain b n
    where "y_base_opt (bucket x) = Some b" and "y_next_opt (bucket x) = Some n"
    by blast
  with False show ?thesis
    by (simp add: fast_rsqrt_opt_def seed_opt_def Let_def)
qed

section \<open>The reference Newton step on natural numbers\<close>

lemma unat_u32_less: "unat (w :: u32) < 2 ^ 32"
  using unsigned_less [of w] by simp

lemma unat_u64_less: "unat (w :: u64) < 2 ^ 64"
  using unsigned_less [of w] by simp

lemma unat_ucast_64_32: "unat (ucast (w :: u64) :: u32) = unat w mod 2 ^ 32"
  by (simp add: unsigned_ucast_eq take_bit_eq_mod)

lemma unat_push_bit_u64: "unat (push_bit k (w :: u64)) = unat w * 2 ^ k mod 2 ^ 64"
proof -
  have "unat (push_bit k w) = take_bit 64 (push_bit k (unat w))"
    by (simp add: unsigned_push_bit_eq)
  then show ?thesis
    by (simp add: push_bit_eq_mult take_bit_eq_mod)
qed

lemma unat_push_bit_u32: "unat (push_bit k (w :: u32)) = unat w * 2 ^ k mod 2 ^ 32"
proof -
  have "unat (push_bit k w) = take_bit 32 (push_bit k (unat w))"
    by (simp add: unsigned_push_bit_eq)
  then show ?thesis
    by (simp add: push_bit_eq_mult take_bit_eq_mod)
qed

lemma unat_sub_u32: "unat (a - b :: u32) = (unat a + 2 ^ 32 - unat b) mod 2 ^ 32"
proof (cases "unat b \<le> unat a")
  case True
  have "unat a - unat b < 2 ^ 32"
    using unat_u32_less [of a] by simp
  then have "(unat a - unat b + 2 ^ 32) mod 2 ^ 32 = unat a - unat b"
    by simp
  moreover have "unat a + 2 ^ 32 - unat b = unat a - unat b + 2 ^ 32"
    using True by arith
  ultimately have "(unat a + 2 ^ 32 - unat b) mod 2 ^ 32 = unat a - unat b"
    by (simp only:)
  with True show ?thesis
    by (simp add: unat_sub_if_size word_size)
next
  case False
  have "unat b < 2 ^ 32"
    by (rule unat_u32_less)
  with False have "unat a + 2 ^ 32 - unat b < 2 ^ 32"
    by simp
  with False show ?thesis
    by (simp add: unat_sub_if_size word_size)
qed

lemma square_u32_less: "unat (y :: u32) * unat y < 2 ^ 64"
proof -
  have "unat y * unat y < 2 ^ 32 * 2 ^ 32"
    using unat_u32_less [of y] by (intro mult_strict_mono) simp_all
  then show ?thesis
    by simp
qed

lemma product_u32_bound: "unat (a :: u32) * unat (b :: u32) + 2 ^ 32 \<le> 2 ^ 64"
proof -
  have a: "unat a \<le> 2 ^ 32 - 1" and b: "unat b \<le> 2 ^ 32 - 1"
    using unat_u32_less [of a] unat_u32_less [of b] by simp_all
  have "unat a * unat b \<le> (2 ^ 32 - 1) * (2 ^ 32 - 1)"
    using a b by (rule mult_le_mono)
  then show ?thesis
    by simp
qed

lemma unat_newton_term_ref:
  "unat (newton_term_ref y x) = newton_term_ref_nat (unat y) (unat x)"
proof -
  define y2 where "y2 = mul32_shift_add y y"
  define y2_lo where "y2_lo = (ucast y2 :: u32)"
  define y2_hi where "y2_hi = (ucast (drop_bit 32 y2) :: u32)"
  define prod_lo where "prod_lo = mul32_shift_add x y2_lo"
  define prod_hi where "prod_hi = mul32_shift_add x y2_hi"
  define rnd where "rnd = prod_lo + push_bit 15 1"
  define xy2 where "xy2 = (ucast (push_bit 16 prod_hi + drop_bit 16 rnd) :: u32)"
  have t: "newton_term_ref y x = push_bit 16 3 - xy2"
    by (simp add: newton_term_ref_def Let_def xy2_def rnd_def prod_hi_def prod_lo_def y2_hi_def
        y2_lo_def y2_def)
  have y2: "unat y2 = unat y * unat y"
    by (simp add: y2_def unat_mul32_shift_add)
  have lo: "unat y2_lo = unat y * unat y mod 2 ^ 32"
    by (simp only: y2_lo_def unat_ucast_64_32 y2)
  have "unat y * unat y div 2 ^ 32 < 2 ^ 32"
    using square_u32_less [of y] by (simp add: less_mult_imp_div_less)
  then have hi: "unat y2_hi = unat y * unat y div 2 ^ 32"
    by (simp only: y2_hi_def unat_ucast_64_32 unat_drop_bit_div y2) simp
  have pl: "unat prod_lo = unat x * (unat y * unat y mod 2 ^ 32)"
    by (simp only: prod_lo_def unat_mul32_shift_add lo)
  have ph: "unat prod_hi = unat x * (unat y * unat y div 2 ^ 32)"
    by (simp only: prod_hi_def unat_mul32_shift_add hi)
  have "unat prod_lo + 2 ^ 15 < 2 ^ 64"
    using product_u32_bound [of x y2_lo] by (simp add: prod_lo_def unat_mul32_shift_add)
  then have r: "unat rnd = unat prod_lo + 2 ^ 15"
    by (simp add: rnd_def unat_word_ariths)
  have "unat xy2 = (unat prod_hi * 2 ^ 16 mod 2 ^ 64 + (unat prod_lo + 2 ^ 15) div 2 ^ 16)
      mod 2 ^ 64 mod 2 ^ 32"
    unfolding xy2_def unat_ucast_64_32
    by (simp only: unat_word_ariths(1) unat_push_bit_u64 unat_drop_bit_div r) simp
  also have "\<dots> = (unat prod_hi * 2 ^ 16 mod 2 ^ 64 + (unat prod_lo + 2 ^ 15) div 2 ^ 16) mod 2 ^ 32"
    by (rule mod_mod_cancel) (simp add: le_imp_power_dvd)
  also have "\<dots> = (unat prod_hi * 2 ^ 16 mod 2 ^ 64 mod 2 ^ 32 + (unat prod_lo + 2 ^ 15) div 2 ^ 16) mod 2 ^ 32"
    by (simp only: mod_add_left_eq)
  also have "unat prod_hi * 2 ^ 16 mod 2 ^ 64 mod 2 ^ 32 = unat prod_hi * 2 ^ 16 mod 2 ^ 32"
    by (rule mod_mod_cancel) (simp add: le_imp_power_dvd)
  also have "(unat prod_hi * 2 ^ 16 mod 2 ^ 32 + (unat prod_lo + 2 ^ 15) div 2 ^ 16) mod 2 ^ 32
      = (unat prod_hi * 2 ^ 16 + (unat prod_lo + 2 ^ 15) div 2 ^ 16) mod 2 ^ 32"
    by (simp only: mod_add_left_eq)
  finally have xy: "unat xy2 = (unat prod_hi * 2 ^ 16 + (unat prod_lo + 2 ^ 15) div 2 ^ 16) mod 2 ^ 32" .
  have "unat (push_bit 16 3 - xy2) = (3 * 2 ^ 16 + 2 ^ 32 - unat xy2) mod 2 ^ 32"
    by (simp add: unat_sub_u32)
  then show ?thesis
    by (simp only: t xy pl ph newton_term_ref_nat_def xy2_q16_ref_nat_def)
qed

lemma unat_q16_newton_step_ref:
  "unat (q16_newton_step_ref y x) = q16_newton_step_ref_nat (unat y) (unat x)"
proof -
  let ?t = "newton_term_ref y x"
  have "unat (mul32_shift_add y ?t) + 2 ^ 16 < 2 ^ 64"
    using product_u32_bound [of y ?t] by (simp add: unat_mul32_shift_add)
  then have "unat (mul32_shift_add y ?t + push_bit 16 1) = unat y * unat ?t + 2 ^ 16"
    by (simp add: unat_word_ariths unat_mul32_shift_add)
  then have "unat (q16_newton_step_ref y x) = (unat y * unat ?t + 2 ^ 16) div 2 ^ 17 mod 2 ^ 32"
    by (simp only: q16_newton_step_ref_def Let_def unat_ucast_64_32 unat_drop_bit_div)
  then show ?thesis
    by (simp only: unat_newton_term_ref q16_newton_step_ref_nat_def)
qed

section \<open>The optimal Newton step on natural numbers\<close>

lemma unat_high16: "unat (drop_bit 16 (w :: u32)) = unat w div 2 ^ 16"
  by (rule unat_drop_bit_div)

lemma high16_less: "unat (w :: u32) div 2 ^ 16 < 2 ^ 16"
  using unat_u32_less [of w] by (simp add: less_mult_imp_div_less)

lemma mult_16_less: "a < 2 ^ 16 \<Longrightarrow> b < 2 ^ 16 \<Longrightarrow> a * b < (2 :: nat) ^ 32"
proof -
  assume "a < 2 ^ 16" and "b < 2 ^ 16"
  then have "a * b < 2 ^ 16 * 2 ^ 16"
    by (intro mult_strict_mono) simp_all
  then show ?thesis
    by simp
qed

lemma unat_mul16_small:
  assumes "unat a < 2 ^ 16" and "unat b < 2 ^ 16"
  shows "unat (mul16x16_32 a b) = unat a * unat b"
  using assms by (simp add: unat_mul16x16_32)

lemma unat_newton_term_opt:
  "unat (newton_term_opt y x) = newton_term_opt_nat (unat y) (unat x)"
proof -
  define ym where "ym = unat y mod 2 ^ 16"
  define y2 where "y2 = mul16x16_32 y y"
  define y2_lo where "y2_lo = y2 AND 0xFFFF"
  define y2_hi where "y2_hi = drop_bit 16 y2"
  define x_lo where "x_lo = x AND 0xFFFF"
  define x_hi where "x_hi = drop_bit 16 x"
  define a1 where "a1 = (push_bit 16 (ucast (mul16x16_32 x_hi y2_hi)) :: u64)"
  define a2 where "a2 = (ucast (mul16x16_32 x_lo y2_hi) :: u64)"
  define a3 where "a3 = (ucast (mul16x16_32 x_hi y2_lo) :: u64)"
  define a4 where "a4 = (drop_bit 16 (ucast (mul16x16_32 x_lo y2_lo)) :: u64)"
  have t: "newton_term_opt y x = push_bit 16 3 - ucast (a1 + a2 + a3 + a4)"
    by (simp add: newton_term_opt_def Let_def a1_def a2_def a3_def a4_def x_hi_def x_lo_def
        y2_hi_def y2_lo_def y2_def)
  have y2: "unat y2 = ym * ym"
    by (simp add: y2_def ym_def unat_mul16x16_32)
  have lo: "unat y2_lo = ym * ym mod 2 ^ 16"
    by (simp add: y2_lo_def unat_low16 y2)
  have hi: "unat y2_hi = ym * ym div 2 ^ 16"
    by (simp add: y2_hi_def unat_high16 y2)
  have xl: "unat x_lo = unat x mod 2 ^ 16"
    by (simp add: x_lo_def unat_low16)
  have xh: "unat x_hi = unat x div 2 ^ 16"
    by (simp add: x_hi_def unat_high16)
  have b_lo: "unat y2_lo < 2 ^ 16" and b_xl: "unat x_lo < 2 ^ 16"
    by (simp_all add: lo xl)
  have b_hi: "unat y2_hi < 2 ^ 16"
    unfolding y2_hi_def unat_high16 by (rule high16_less)
  have b_xh: "unat x_hi < 2 ^ 16"
    unfolding x_hi_def unat_high16 by (rule high16_less)
  have m1: "unat (mul16x16_32 x_hi y2_hi) = unat x_hi * unat y2_hi"
    and m2: "unat (mul16x16_32 x_lo y2_hi) = unat x_lo * unat y2_hi"
    and m3: "unat (mul16x16_32 x_hi y2_lo) = unat x_hi * unat y2_lo"
    and m4: "unat (mul16x16_32 x_lo y2_lo) = unat x_lo * unat y2_lo"
    using b_lo b_hi b_xl b_xh by (simp_all add: unat_mul16_small)
  have p1: "unat x_hi * unat y2_hi < 2 ^ 32" and p2: "unat x_lo * unat y2_hi < 2 ^ 32"
    and p3: "unat x_hi * unat y2_lo < 2 ^ 32" and p4: "unat x_lo * unat y2_lo < 2 ^ 32"
    by (rule mult_16_less [OF b_xh b_hi], rule mult_16_less [OF b_xl b_hi],
        rule mult_16_less [OF b_xh b_lo], rule mult_16_less [OF b_xl b_lo])
  have "unat x_hi * unat y2_hi * 2 ^ 16 < 2 ^ 32 * 2 ^ 16"
    using p1 by simp
  then have s1: "unat x_hi * unat y2_hi * 2 ^ 16 < 2 ^ 48"
    by simp
  then have u1: "unat a1 = unat x_hi * unat y2_hi * 2 ^ 16"
    by (simp add: a1_def unat_push_bit_u64 unat_ucast_32_64 m1)
  have u2: "unat a2 = unat x_lo * unat y2_hi"
    by (simp add: a2_def unat_ucast_32_64 m2)
  have u3: "unat a3 = unat x_hi * unat y2_lo"
    by (simp add: a3_def unat_ucast_32_64 m3)
  have u4: "unat a4 = unat x_lo * unat y2_lo div 2 ^ 16"
    by (simp only: a4_def unat_drop_bit_div unat_ucast_32_64 m4)
  have s4: "unat a4 < 2 ^ 32"
    using p4 unfolding u4 by (simp add: less_mult_imp_div_less)
  have "unat (a1 + a2 + a3 + a4) = unat a1 + unat a2 + unat a3 + unat a4"
    using s1 p2 p3 s4 by (simp add: unat_word_ariths u1 u2 u3)
  then have "unat (ucast (a1 + a2 + a3 + a4) :: u32)
      = (unat x_hi * unat y2_hi * 2 ^ 16 + unat x_lo * unat y2_hi + unat x_hi * unat y2_lo
          + unat x_lo * unat y2_lo div 2 ^ 16) mod 2 ^ 32"
    by (simp only: unat_ucast_64_32 u1 u2 u3 u4)
  moreover have "unat (push_bit 16 3 - ucast (a1 + a2 + a3 + a4) :: u32)
      = (3 * 2 ^ 16 + 2 ^ 32 - unat (ucast (a1 + a2 + a3 + a4) :: u32)) mod 2 ^ 32"
    by (simp add: unat_sub_u32)
  ultimately show ?thesis
    by (simp only: t lo hi xl xh newton_term_opt_nat_def xy2_q16_opt_nat_def ym_def)
qed

lemma unat_q16_newton_step_opt:
  "unat (q16_newton_step_opt y0 x) = q16_newton_step_opt_nat (unat y0) (unat x)"
proof -
  define y where "y = y0 AND 0xFFFF"
  define tm where "tm = newton_term_opt y x"
  define term_hi where "term_hi = drop_bit 16 tm"
  define term_lo where "term_lo = tm AND 0xFFFF"
  define y_mul_hi where "y_mul_hi = (if term_hi = 3 then push_bit 1 y + y
      else if term_hi = 2 then push_bit 1 y else if term_hi = 1 then y else 0)"
  have r: "q16_newton_step_opt y0 x = drop_bit 1 y_mul_hi + drop_bit 17 (mul16x16_32 y term_lo)"
    by (simp add: q16_newton_step_opt_def Let_def y_mul_hi_def term_lo_def term_hi_def tm_def y_def)
  have y: "unat y = unat y0 mod 2 ^ 16"
    by (simp add: y_def unat_low16)
  then have yb: "unat y < 2 ^ 16"
    by simp
  have tm: "unat tm = newton_term_opt_nat (unat y) (unat x)"
    by (simp only: tm_def unat_newton_term_opt)
  have th: "unat term_hi = unat tm div 2 ^ 16"
    by (simp add: term_hi_def unat_high16)
  have tl: "unat term_lo = unat tm mod 2 ^ 16"
    by (simp add: term_lo_def unat_low16)
  have "unat (push_bit 1 y) = unat y * 2 ^ 1 mod 2 ^ 32"
    by (rule unat_push_bit_u32)
  also have "\<dots> = 2 * unat y"
    using yb by simp
  finally have pb: "unat (push_bit 1 y) = 2 * unat y" .
  have "unat (push_bit 1 y + y) = (unat (push_bit 1 y) + unat y) mod 2 ^ 32"
    by (simp only: unat_word_ariths(1)) simp
  also have "\<dots> = 2 * unat y + unat y"
    using yb by (simp only: pb) simp
  finally have pb3: "unat (push_bit 1 y + y) = 2 * unat y + unat y" .
  have ymh: "unat y_mul_hi = (if unat term_hi = 3 then 2 * unat y + unat y
      else if unat term_hi = 2 then 2 * unat y else if unat term_hi = 1 then unat y else 0)"
  proof -
    have c: "term_hi = 3 \<longleftrightarrow> unat term_hi = 3" "term_hi = 2 \<longleftrightarrow> unat term_hi = 2"
      "term_hi = 1 \<longleftrightarrow> unat term_hi = 1"
      by (simp_all add: word_unat_eq_iff)
    have "unat y_mul_hi = (if term_hi = 3 then unat (push_bit 1 y + y)
        else if term_hi = 2 then unat (push_bit 1 y) else if term_hi = 1 then unat y
        else unat (0 :: u32))"
      by (simp only: y_mul_hi_def if_distrib [of unat])
    then show ?thesis
      by (simp only: pb pb3 c unsigned_0)
  qed
  have ymb: "unat y_mul_hi < 2 ^ 18"
    using yb unfolding ymh by simp
  have t0: "unat (drop_bit 1 y_mul_hi) = unat y_mul_hi div 2"
    using unat_drop_bit_div [of 1 y_mul_hi] by simp
  have pm: "unat (mul16x16_32 y term_lo) = unat y * unat term_lo"
    using yb by (simp add: unat_mul16_small tl)
  have t1: "unat (drop_bit 17 (mul16x16_32 y term_lo)) = unat y * unat term_lo div 2 ^ 17"
    by (simp only: unat_drop_bit_div pm)
  have "unat y * unat term_lo < 2 ^ 32"
    using yb by (intro mult_16_less) (simp_all add: tl)
  then have "unat y * unat term_lo div 2 ^ 17 < 2 ^ 15"
    by (simp add: less_mult_imp_div_less)
  moreover have "unat y_mul_hi div 2 < 2 ^ 17"
    using ymb by simp
  ultimately have small: "unat y_mul_hi div 2 + unat y * unat term_lo div 2 ^ 17 < 2 ^ 32"
    by simp
  have "unat (drop_bit 1 y_mul_hi + drop_bit 17 (mul16x16_32 y term_lo))
      = (unat (drop_bit 1 y_mul_hi) + unat (drop_bit 17 (mul16x16_32 y term_lo))) mod 2 ^ 32"
    by (simp only: unat_word_ariths(1)) simp
  also have "\<dots> = (unat y_mul_hi div 2 + unat y * unat term_lo div 2 ^ 17) mod 2 ^ 32"
    by (simp only: t0 t1)
  also have "\<dots> = unat y_mul_hi div 2 + unat y * unat term_lo div 2 ^ 17"
    using small by (rule mod_less)
  finally have "unat (drop_bit 1 y_mul_hi + drop_bit 17 (mul16x16_32 y term_lo))
      = unat y_mul_hi div 2 + unat y * unat term_lo div 2 ^ 17" .
  then show ?thesis
    by (simp only: r ymh th tl tm y q16_newton_step_opt_nat_def newton_combine_opt_nat_def
        y_mul_hi_nat_def)
qed

section \<open>The interpolation fraction\<close>

lemma unat_bucket:
  assumes "x \<noteq> 0"
  shows "unat (bucket x) = highest_bit (unat x)"
proof -
  let ?e = "unat (bucket x)"
  have "floorlog 2 (unat x) \<le> ?e + 1"
    using bucket_bounds(3) [OF assms] by (intro floorlog_leI) simp_all
  moreover have "?e + 1 \<le> floorlog 2 (unat x)"
    using bucket_bounds(2) [OF assms] by (intro floorlog_geI) simp_all
  ultimately show ?thesis
    by (simp add: highest_bit_def)
qed

lemma highest_bit_bounds:
  assumes "0 < n"
  shows "2 ^ highest_bit n \<le> n" and "n < 2 ^ (highest_bit n + 1)"
proof -
  from assms have "0 < floorlog 2 n"
    by (simp add: floorlog_def)
  then have "highest_bit n + 1 = floorlog 2 n"
    by (simp add: highest_bit_def)
  with floorlog_bounds [of n 2] assms show "2 ^ highest_bit n \<le> n" and "n < 2 ^ (highest_bit n + 1)"
    by (simp_all add: highest_bit_def)
qed

lemma frac_spec_less:
  assumes "0 < n"
  shows "frac_spec n < 2 ^ 16"
proof -
  let ?e = "highest_bit n"
  have "n - 2 ^ ?e < 2 ^ ?e"
    using highest_bit_bounds [OF assms] by simp
  then have "(n - 2 ^ ?e) * 2 ^ 16 < 2 ^ ?e * 2 ^ 16"
    by simp
  then have "(n - 2 ^ ?e) * 2 ^ 16 div 2 ^ ?e < 2 ^ 16"
    by (simp add: less_mult_imp_div_less mult.commute)
  then show ?thesis
    by (simp add: frac_spec_def frac_at_def)
qed

lemma unat_one_shifted:
  assumes "e \<le> 31"
  shows "unat (push_bit e 1 :: u32) = 2 ^ e"
proof -
  have lt: "(2::nat) ^ e < 2 ^ 32"
    using assms by (intro power_strict_increasing) simp_all
  have "unat (push_bit e 1 :: u32) = unat (1 :: u32) * 2 ^ e mod 2 ^ 32"
    by (rule unat_push_bit_u32)
  also have "\<dots> = 2 ^ e"
    using lt by simp
  finally show ?thesis .
qed

lemma unat_power_two:
  assumes "e \<le> 31"
  shows "unat ((2 :: u32) ^ e) = 2 ^ e"
  using unat_one_shifted [OF assms] by simp

lemma power_two_split: "a \<le> b \<Longrightarrow> (2::nat) ^ (b - a) * 2 ^ a = 2 ^ b"
  by (simp flip: power_add)

lemma unat_frac_opt:
  assumes "x \<noteq> 0"
  shows "unat (frac_opt x) = frac_spec (unat x)"
proof -
  define e where "e = unat (bucket x)"
  define n where "n = unat x"
  have e31: "e \<le> 31" and lo: "2 ^ e \<le> n" and hi: "n < 2 ^ (e + 1)"
    using bucket_bounds [OF assms] by (simp_all add: e_def n_def)
  have eh: "e = highest_bit n"
    using unat_bucket [OF assms] by (simp add: e_def n_def)
  define diff where "diff = x - push_bit e 1"
  have "unat (push_bit e 1 :: u32) \<le> unat x"
    using lo e31 by (simp add: unat_power_two n_def)
  then have "unat diff = unat x - unat (push_bit e 1 :: u32)"
    unfolding diff_def by (intro unat_sub) (simp add: word_le_nat_alt)
  then have d: "unat diff = n - 2 ^ e"
    by (simp only: unat_one_shifted [OF e31] n_def)
  have dlt: "n - 2 ^ e < 2 ^ e"
    using hi by simp
  show ?thesis
  proof (cases "16 \<le> e")
    case True
    then have c: "16 \<le> bucket x"
      by (simp add: word_le_nat_alt e_def)
    then have s: "unat (bucket x - 16) = e - 16"
      by (simp add: unat_sub e_def)
    have "frac_opt x = drop_bit (e - 16) diff"
      using c by (simp add: frac_opt_def Let_def s diff_def e_def)
    then have "unat (frac_opt x) = (n - 2 ^ e) div 2 ^ (e - 16)"
      by (simp only: unat_drop_bit_div d)
    also have "\<dots> = (n - 2 ^ e) * 2 ^ 16 div (2 ^ (e - 16) * 2 ^ 16)"
      by simp
    also have "(2::nat) ^ (e - 16) * 2 ^ 16 = 2 ^ e"
      using True by (rule power_two_split)
    finally show ?thesis
      by (simp add: frac_spec_def frac_at_def eh n_def)
  next
    case False
    then have c: "\<not> 16 \<le> bucket x"
      by (simp add: word_le_nat_alt e_def)
    from False have "bucket x \<le> 16"
      by (simp add: word_le_nat_alt e_def)
    then have s: "unat (16 - bucket x) = 16 - e"
      by (simp add: unat_sub e_def)
    have f: "frac_opt x = push_bit (16 - e) diff"
      using c by (simp add: frac_opt_def Let_def s diff_def e_def)
    have p: "(2::nat) ^ 16 = 2 ^ (16 - e) * 2 ^ e"
      using False by (intro power_two_split [symmetric]) simp
    have "(n - 2 ^ e) * 2 ^ (16 - e) < 2 ^ e * 2 ^ (16 - e)"
      using dlt by simp
    also have "\<dots> = 2 ^ 16"
      by (simp only: p mult.commute)
    finally have "(n - 2 ^ e) * 2 ^ (16 - e) < 2 ^ 32"
      by simp
    then have "unat (frac_opt x) = (n - 2 ^ e) * 2 ^ (16 - e)"
      by (simp only: f unat_push_bit_u32 d) simp
    also have "\<dots> = (n - 2 ^ e) * 2 ^ (16 - e) * 2 ^ e div 2 ^ e"
      by simp
    also have "\<dots> = (n - 2 ^ e) * 2 ^ 16 div 2 ^ e"
      by (simp only: p mult.assoc)
    finally show ?thesis
      by (simp add: frac_spec_def frac_at_def eh n_def)
  qed
qed

lemma unat_frac_ref:
  assumes "x \<noteq> 0" and "unat x < 2 ^ 31"
  shows "unat (frac_ref x) = frac_spec (unat x)"
proof -
  define e where "e = unat (bucket x)"
  define n where "n = unat x"
  have e31: "e \<le> 31" and lo: "2 ^ e \<le> n" and hi: "n < 2 ^ (e + 1)"
    using bucket_bounds [OF assms(1)] by (simp_all add: e_def n_def)
  have eh: "e = highest_bit n"
    using unat_bucket [OF assms(1)] by (simp add: e_def n_def)
  have "(2::nat) ^ e < 2 ^ 31"
    using lo assms(2) by (simp add: n_def)
  then have e30: "e < 31"
    by (rule power_less_imp_less_exp [rotated]) simp
  then have c: "bucket x < 31"
    by (simp add: word_less_nat_alt e_def)
  define d where "d = (ucast x :: u64) - ucast (push_bit e 1 :: u32)"
  have f: "frac_ref x = ucast (drop_bit e (push_bit 16 d))"
    using c by (simp add: frac_ref_def Let_def d_def e_def)
  have one: "unat (ucast (push_bit e 1 :: u32) :: u64) = 2 ^ e"
    using e31 by (simp only: unat_ucast_32_64 unat_one_shifted)
  have "unat d = unat (ucast x :: u64) - unat (ucast (push_bit e 1 :: u32) :: u64)"
    unfolding d_def using lo
    by (intro unat_sub) (simp only: word_le_nat_alt unat_ucast_32_64 unat_one_shifted [OF e31] n_def)
  then have d: "unat d = n - 2 ^ e"
    by (simp only: unat_ucast_32_64 unat_one_shifted [OF e31] n_def)
  have dlt: "n - 2 ^ e < 2 ^ e"
    using hi by simp
  have "(n - 2 ^ e) * 2 ^ 16 < 2 ^ e * 2 ^ 16"
    using dlt by simp
  also have "\<dots> < 2 ^ 31 * 2 ^ 16"
    using \<open>(2::nat) ^ e < 2 ^ 31\<close> by simp
  finally have big: "(n - 2 ^ e) * 2 ^ 16 < 2 ^ 64"
    by simp
  have "(n - 2 ^ e) * 2 ^ 16 div 2 ^ e < 2 ^ 16"
    using dlt by (simp add: less_mult_imp_div_less mult.commute)
  then have small: "(n - 2 ^ e) * 2 ^ 16 div 2 ^ e < 2 ^ 32"
    by simp
  have "unat (frac_ref x) = (n - 2 ^ e) * 2 ^ 16 mod 2 ^ 64 div 2 ^ e mod 2 ^ 32"
    by (simp only: f unat_ucast_64_32 unat_drop_bit_div unat_push_bit_u64 d)
  also have "\<dots> = (n - 2 ^ e) * 2 ^ 16 div 2 ^ e"
    using big small by simp
  finally show ?thesis
    by (simp add: frac_spec_def frac_at_def eh n_def)
qed

section \<open>The interpolated seed and the whole pipeline\<close>

lemma rsqrt_table_nat_eq:
  "rsqrt_table_nat =
     [65535, 46341, 32768, 23170, 16384, 11585, 8192, 5793, 4096, 2896, 2048, 1448, 1024, 724,
      512, 362, 256, 181, 128, 90, 64, 45, 32, 23, 16, 11, 8, 6, 4, 3, 2, 1]"
  by (simp add: rsqrt_table_nat_def rsqrt_table_ref_def)

lemma rsqrt_tables_equal: "rsqrt_table_opt = rsqrt_table_ref"
  by (simp add: rsqrt_table_opt_def rsqrt_table_ref_def)

lemma length_rsqrt_table_ref: "length rsqrt_table_ref = 32"
  by (simp add: rsqrt_table_ref_def)

lemma unat_ucast_16_32: "unat (ucast (w :: u16) :: u32) = unat w"
proof -
  have "unat w < 2 ^ 16"
    using unsigned_less [of w] by simp
  then have "unat w < 2 ^ 32"
    by simp
  then show ?thesis
    by (simp add: unsigned_ucast_eq take_bit_nat_eq_self)
qed

lemma lut_nat:
  assumes "unat i < 32"
  shows "\<exists>v. lut rsqrt_table_ref i = Some v \<and> lut rsqrt_table_opt i = Some v
    \<and> unat v = rsqrt_table_nat ! unat i"
  using assms
  by (simp add: lut_def rsqrt_tables_equal length_rsqrt_table_ref unat_ucast_16_32
      rsqrt_table_nat_def)

lemma table_nat_facts:
  "\<forall>e \<in> set [0..<31]. rsqrt_table_nat ! (e + 1) \<le> rsqrt_table_nat ! e"
  "\<forall>e \<in> set [0..<32]. rsqrt_table_nat ! e < 2 ^ 16"
  "rsqrt_table_nat ! 31 = 1"
  by (simp_all add: rsqrt_table_nat_eq upt_rec [of _ "numeral k" for k])

lemma table_nat_decreasing: "e < 31 \<Longrightarrow> rsqrt_table_nat ! (e + 1) \<le> rsqrt_table_nat ! e"
  using table_nat_facts(1) by simp

lemma table_nat_less: "e < 32 \<Longrightarrow> rsqrt_table_nat ! e < 2 ^ 16"
  using table_nat_facts(2) by simp

lemma div_two16_le:
  assumes "f < 2 ^ 16"
  shows "d * f div 2 ^ 16 \<le> (d :: nat)"
proof -
  have "d * f \<le> d * 2 ^ 16"
    using assms by simp
  then have "d * f div 2 ^ 16 \<le> d * 2 ^ 16 div 2 ^ 16"
    by (rule div_le_mono)
  then show ?thesis
    by simp
qed

lemma unat_interpolate_ref:
  assumes le: "unat yn \<le> unat yb"
    and small: "(unat yb - unat yn) * unat fr div 2 ^ 16 \<le> unat yb"
  shows "unat (interpolate_ref yb yn fr) = unat yb - (unat yb - unat yn) * unat fr div 2 ^ 16"
proof -
  define delta where "delta = yb - yn"
  define v where "v = (ucast (drop_bit 16 (mul32_shift_add delta fr)) :: u32)"
  have r: "interpolate_ref yb yn fr = yb - v"
    by (simp add: interpolate_ref_def Let_def v_def delta_def)
  have d: "unat delta = unat yb - unat yn"
    unfolding delta_def using le by (intro unat_sub) (simp add: word_le_nat_alt)
  have "unat v = (unat yb - unat yn) * unat fr div 2 ^ 16 mod 2 ^ 32"
    by (simp only: v_def unat_ucast_64_32 unat_drop_bit_div unat_mul32_shift_add d)
  also have "\<dots> = (unat yb - unat yn) * unat fr div 2 ^ 16"
    using small unat_u32_less [of yb] by simp
  finally have v: "unat v = (unat yb - unat yn) * unat fr div 2 ^ 16" .
  have "unat (yb - v) = unat yb - unat v"
    using small by (intro unat_sub) (simp add: word_le_nat_alt v)
  then show ?thesis
    by (simp only: r v)
qed

lemma unat_interpolate_opt:
  assumes le: "unat y1 \<le> unat y0" and y0: "unat y0 < 2 ^ 16" and fr: "unat fr < 2 ^ 16"
  shows "unat (interpolate_opt y0 y1 fr) = unat y0 - (unat y0 - unat y1) * unat fr div 2 ^ 16"
proof -
  define dy where "dy = y0 - y1"
  define v where "v = drop_bit 16 (mul16x16_32 dy fr)"
  have r: "interpolate_opt y0 y1 fr = y0 - v"
    by (simp add: interpolate_opt_def Let_def v_def dy_def)
  have d: "unat dy = unat y0 - unat y1"
    unfolding dy_def using le by (intro unat_sub) (simp add: word_le_nat_alt)
  then have "unat dy < 2 ^ 16"
    using y0 by simp
  then have "unat (mul16x16_32 dy fr) = unat dy * unat fr"
    using fr by (rule unat_mul16_small)
  then have v: "unat v = (unat y0 - unat y1) * unat fr div 2 ^ 16"
    by (simp only: v_def unat_drop_bit_div d)
  have "(unat y0 - unat y1) * unat fr div 2 ^ 16 \<le> unat y0 - unat y1"
    using fr by (rule div_two16_le)
  then have "unat v \<le> unat y0"
    by (simp add: v)
  then have "unat (y0 - v) = unat y0 - unat v"
    by (intro unat_sub) (simp add: word_le_nat_alt)
  then show ?thesis
    by (simp only: r v)
qed

lemma seed_words:
  assumes "x \<noteq> 0"
  shows "\<exists>yb yn. y_base_ref (bucket x) = Some yb \<and> y_next_ref (bucket x) = Some yn
      \<and> y_base_opt (bucket x) = Some yb \<and> y_next_opt (bucket x) = Some yn
      \<and> unat (interpolate_ref yb yn (frac_ref x)) = seed_nat (unat x)
      \<and> unat (interpolate_opt yb yn (frac_opt x)) = seed_nat (unat x)"
proof -
  define e where "e = unat (bucket x)"
  define n where "n = unat x"
  have e31: "e \<le> 31" and hi: "n < 2 ^ (e + 1)"
    using bucket_bounds [OF assms] by (simp_all add: e_def n_def)
  have eh: "highest_bit n = e"
    using unat_bucket [OF assms] by (simp add: e_def n_def)
  have n0: "0 < n"
    using assms by (simp add: n_def unat_gt_0)
  from e31 have "unat (bucket x) < 32"
    by (simp add: e_def)
  from lut_nat [OF this] obtain yb where yb: "lut rsqrt_table_ref (bucket x) = Some yb"
    "lut rsqrt_table_opt (bucket x) = Some yb" "unat yb = rsqrt_table_nat ! e"
    by (auto simp: e_def)
  have ybl: "unat yb < 2 ^ 16"
    using e31 table_nat_less [of e] by (simp add: yb(3))
  have fo: "unat (frac_opt x) = frac_spec n"
    using unat_frac_opt [OF assms] by (simp add: n_def)
  have fl: "frac_spec n < 2 ^ 16"
    using n0 by (rule frac_spec_less)
  show ?thesis
  proof (cases "e < 31")
    case True
    then have c: "bucket x < 31"
      by (simp add: word_less_nat_alt e_def)
    from c have "unat (bucket x + 1) < 32"
      by (rule unat_bucket_next)
    from lut_nat [OF this] obtain yn where yn: "lut rsqrt_table_ref (bucket x + 1) = Some yn"
      "lut rsqrt_table_opt (bucket x + 1) = Some yn"
      "unat yn = rsqrt_table_nat ! unat (bucket x + 1)"
      by auto
    have "unat (bucket x + 1) = e + 1"
      using True by (simp add: unat_word_ariths e_def)
    then have yn3: "unat yn = rsqrt_table_nat ! (e + 1)"
      by (simp add: yn(3))
    have le: "unat yn \<le> unat yb"
      using table_nat_decreasing [OF True] by (simp only: yn3 yb(3))
    have "n < 2 ^ 31"
    proof -
      have "(2::nat) ^ (e + 1) \<le> 2 ^ 31"
        using True by (intro power_increasing) simp_all
      with hi show ?thesis
        by simp
    qed
    then have fr: "unat (frac_ref x) = frac_spec n"
      using unat_frac_ref [OF assms] by (simp add: n_def)
    have sm: "(unat yb - unat yn) * frac_spec n div 2 ^ 16 \<le> unat yb - unat yn"
      using fl by (rule div_two16_le)
    have s: "seed_nat n = unat yb - (unat yb - unat yn) * frac_spec n div 2 ^ 16"
      using True by (simp add: seed_nat_def seed_at_def frac_spec_def eh yb(3) yn3)
    have "unat (interpolate_ref yb yn (frac_ref x)) = seed_nat n"
      using sm by (simp add: unat_interpolate_ref [OF le] fr s)
    moreover have "unat (interpolate_opt yb yn (frac_opt x)) = seed_nat n"
      using fl by (simp add: unat_interpolate_opt [OF le ybl] fo s)
    ultimately show ?thesis
      using c yb yn by (simp add: y_base_ref_def y_next_ref_def y_base_opt_def y_next_opt_def n_def)
  next
    case False
    with e31 have e: "e = 31"
      by simp
    then have c: "\<not> bucket x < 31"
      by (simp add: word_less_nat_alt e_def)
    have y1: "unat yb = 1"
      by (simp add: yb(3) e table_nat_facts(3))
    have s: "seed_nat n = 1"
      by (simp add: seed_nat_def seed_at_def eh e table_nat_facts(3))
    have le: "unat (1 :: u32) \<le> unat yb"
      by (simp add: y1)
    have "unat (interpolate_ref yb 1 (frac_ref x)) = seed_nat n"
      by (simp add: unat_interpolate_ref [OF le] y1 s)
    moreover have "unat (interpolate_opt yb 1 (frac_opt x)) = seed_nat n"
      using fl ybl by (simp add: unat_interpolate_opt [OF le] fo y1 s)
    ultimately show ?thesis
      using c yb by (simp add: y_base_ref_def y_next_ref_def y_base_opt_def y_next_opt_def n_def)
  qed
qed

lemma seed_nat_refines:
  assumes "x \<noteq> 0"
  shows "\<exists>s. seed_ref x = Some s \<and> unat s = seed_nat (unat x)"
    and "\<exists>s. seed_opt x = Some s \<and> unat s = seed_nat (unat x)"
proof -
  from seed_words [OF assms] obtain yb yn where
    "y_base_ref (bucket x) = Some yb" "y_next_ref (bucket x) = Some yn"
    "y_base_opt (bucket x) = Some yb" "y_next_opt (bucket x) = Some yn"
    "unat (interpolate_ref yb yn (frac_ref x)) = seed_nat (unat x)"
    "unat (interpolate_opt yb yn (frac_opt x)) = seed_nat (unat x)"
    by blast
  then show "\<exists>s. seed_ref x = Some s \<and> unat s = seed_nat (unat x)"
    and "\<exists>s. seed_opt x = Some s \<and> unat s = seed_nat (unat x)"
    by (simp_all add: seed_ref_def seed_opt_def Let_def)
qed

lemma fast_rsqrt_ref_nat:
  "\<exists>r. fast_rsqrt_ref x = Some r \<and> unat r = rsqrt_ref_nat (unat x)"
proof (cases "x = 0")
  case True
  then show ?thesis
    by (simp add: fast_rsqrt_ref_def rsqrt_ref_nat_def)
next
  case False
  then have n: "unat x \<noteq> 0"
    by (simp add: unat_eq_0)
  from seed_words [OF False] obtain yb yn where
    "y_base_ref (bucket x) = Some yb" "y_next_ref (bucket x) = Some yn"
    "unat (interpolate_ref yb yn (frac_ref x)) = seed_nat (unat x)"
    by blast
  with False n show ?thesis
    by (simp add: fast_rsqrt_ref_def seed_ref_def rsqrt_ref_nat_def Let_def
        unat_q16_newton_step_ref)
qed

lemma fast_rsqrt_opt_nat:
  "\<exists>r. fast_rsqrt_opt x = Some r \<and> unat r = rsqrt_opt_nat (unat x)"
proof (cases "x = 0")
  case True
  then show ?thesis
    by (simp add: fast_rsqrt_opt_def rsqrt_opt_nat_def)
next
  case False
  then have n: "unat x \<noteq> 0"
    by (simp add: unat_eq_0)
  from seed_words [OF False] obtain yb yn where
    "y_base_opt (bucket x) = Some yb" "y_next_opt (bucket x) = Some yn"
    "unat (interpolate_opt yb yn (frac_opt x)) = seed_nat (unat x)"
    by blast
  with False n show ?thesis
    by (simp add: fast_rsqrt_opt_def seed_opt_def rsqrt_opt_nat_def Let_def
        unat_q16_newton_step_opt)
qed

section \<open>Evaluation on concrete inputs\<close>

text \<open>
  The equations that evaluate the arithmetic reading on numerals, and the way back from a
  value of the reading to the value of the source function.
\<close>

lemmas nat_eval = rsqrt_ref_nat_def rsqrt_opt_nat_def seed_nat_def seed_at_def frac_spec_def
  frac_at_def highest_bit_def
  q16_newton_step_ref_nat_def newton_term_ref_nat_def xy2_q16_ref_nat_def
  q16_newton_step_opt_nat_def newton_term_opt_nat_def newton_combine_opt_nat_def
  y_mul_hi_nat_def xy2_q16_opt_nat_def rsqrt_table_nat_eq compute_floorlog

lemma fast_rsqrt_ref_value:
  assumes "rsqrt_ref_nat (unat x) = unat v"
  shows "fast_rsqrt_ref x = Some v"
  using fast_rsqrt_ref_nat [of x] assms by (auto simp: word_unat_eq_iff)

lemma fast_rsqrt_opt_value:
  assumes "rsqrt_opt_nat (unat x) = unat v"
  shows "fast_rsqrt_opt x = Some v"
  using fast_rsqrt_opt_nat [of x] assms by (auto simp: word_unat_eq_iff)

section \<open>The zero input and totality\<close>

text \<open>
  Claim C2. Both variants of \<open>fast_rsqrt\<close> return exactly 0 on the input 0, as an ordinary
  result, and they return a result on every 32-bit input \<open>x\<close>: the loops of the multiply
  primitives terminate, and no table read is out of range (the only failure the model has).
\<close>

theorem fast_rsqrt_zero_total:
  "fast_rsqrt_ref 0 = Some 0 \<and> fast_rsqrt_opt 0 = Some 0
   \<and> (\<exists>r. fast_rsqrt_ref x = Some r) \<and> (\<exists>r. fast_rsqrt_opt x = Some r)"
  using fast_rsqrt_ref_defined [of x] fast_rsqrt_opt_defined [of x]
  by (simp add: fast_rsqrt_ref_def fast_rsqrt_opt_def)

section \<open>The multiply primitives\<close>

text \<open>
  Claim C4. \<open>mul32_shift_add a b\<close> is the exact 64-bit product of any two 32-bit operands and
  is 0 at once for the multiplier 0 (the loop body is never entered); \<open>mul16x16_32 c d\<close> is
  the exact 32-bit product of two operands that fit in 16 bits.
\<close>

theorem multiply_primitives_exact:
  assumes "unat c < 2 ^ 16" and "unat d < 2 ^ 16"
  shows "unat (mul32_shift_add a b) = unat a * unat b
    \<and> mul32_shift_add a 0 = 0
    \<and> unat (mul16x16_32 c d) = unat c * unat d"
proof -
  have "mul32_shift_add a 0 = 0"
    by (simp add: mul32_shift_add_def mul32_loop.simps)
  moreover have "unat (mul16x16_32 c d) = unat c * unat d"
    using assms by (simp add: unat_mul16x16_32)
  ultimately show ?thesis
    by (simp add: unat_mul32_shift_add)
qed

theorem multiply_primitives_exact_witness:
  "unat (0xFFFF :: u32) < 2 ^ 16
   \<and> unat (mul32_shift_add 0xFFFFFFFF 0xFFFFFFFF) = 18446744065119617025
   \<and> mul32_shift_add 0xFFFFFFFF 0 = 0
   \<and> unat (mul16x16_32 0xFFFF 0xFFFF) = 4294836225"
  using multiply_primitives_exact [of "0xFFFF" "0xFFFF" "0xFFFFFFFF" "0xFFFFFFFF"]
  by simp

section \<open>The optimal Newton step reads 16 bits of its seed\<close>

text \<open>
  Claim C10. In the optimal variant \<open>q16_newton_step y x\<close> depends on the low 16 bits of \<open>y\<close>
  only: it has the same value at \<open>y\<close> and at \<open>y mod 2^16\<close>, for all 32-bit \<open>y\<close> and \<open>x\<close>.
\<close>

theorem newton_step_opt_low16:
  "q16_newton_step_opt y x = q16_newton_step_opt (y AND 0xFFFF) x
   \<and> q16_newton_step_opt y x = q16_newton_step_opt (of_nat (unat y mod 2 ^ 16)) x"
proof -
  have "(of_nat (unat y mod 2 ^ 16) :: u32) = of_nat (unat (y AND 0xFFFF))"
    by (simp only: unat_low16) simp
  then have m: "(of_nat (unat y mod 2 ^ 16) :: u32) = y AND 0xFFFF"
    by simp
  have "q16_newton_step_opt y x = q16_newton_step_opt (y AND 0xFFFF) x"
    by (simp add: q16_newton_step_opt_def and.assoc)
  then show ?thesis
    by (simp only: m)
qed

section \<open>The clamp at the last bucket\<close>



section \<open>The sample inputs\<close>

text \<open>
  Claim C9, as amended. On the sample inputs of the specification the reference variant
  returns exactly 65536 for \<open>x = 1\<close> and the optimal variant returns 65535 (one unit below 1.0
  in Q16); both return 32768 for \<open>x = 4\<close>, 2072 for \<open>x = 1000\<close> (the true value is 2072.43)
  and 1 for \<open>x = 0xFFFFFFFF\<close>.
\<close>

theorem sample_results:
  "fast_rsqrt_ref 1 = Some 65536 \<and> fast_rsqrt_opt 1 = Some 65535
   \<and> fast_rsqrt_ref 4 = Some 32768 \<and> fast_rsqrt_opt 4 = Some 32768
   \<and> fast_rsqrt_ref 1000 = Some 2072 \<and> fast_rsqrt_opt 1000 = Some 2072
   \<and> fast_rsqrt_ref 0xFFFFFFFF = Some 1 \<and> fast_rsqrt_opt 0xFFFFFFFF = Some 1"
  by (intro conjI fast_rsqrt_ref_value fast_rsqrt_opt_value) (simp_all add: nat_eval)

text \<open>
  Claim C9 as stated asks for exactly 65536 at \<open>x = 1\<close> in both variants; the optimal variant
  does not return it.
\<close>

theorem sample_one_counterexample:
  "fast_rsqrt_opt 1 \<noteq> Some 65536"
proof -
  have "fast_rsqrt_opt 1 = Some 65535"
    by (rule fast_rsqrt_opt_value) (simp add: nat_eval)
  then show ?thesis
    by simp
qed

section \<open>The interpolation fraction at the last bucket\<close>

text \<open>
  Claim C7 at the input \<open>x = 2^31\<close>. The specified fraction \<open>((x - 2^31) << 16) >> 31\<close> is 0
  and the optimal variant computes 0, but the reference variant, which subtracts 0 in place
  of \<open>2^31\<close> when \<open>exp = 31\<close>, computes 65536, which is not below \<open>2^16\<close>.
\<close>

theorem frac_ref_top_bucket:
  "frac_ref 0x80000000 = 65536 \<and> \<not> unat (frac_ref 0x80000000) < 2 ^ 16
   \<and> frac_spec (unat (0x80000000 :: u32)) = 0 \<and> frac_opt 0x80000000 = 0"
proof -
  have b: "bucket 0x80000000 = 31"
    by (rule bucket_top) simp
  have "frac_ref 0x80000000 = 65536"
    by (simp add: frac_ref_def b)
  moreover have "frac_opt 0x80000000 = 0"
    by (simp add: frac_opt_def b)
  moreover have "frac_spec (unat (0x80000000 :: u32)) = 0"
    by (simp add: frac_spec_def frac_at_def highest_bit_def compute_floorlog)
  ultimately show ?thesis
    by simp
qed

section \<open>Rounding in the Newton step\<close>

text \<open>
  Claim C6 as stated says that both variants form \<open>(y * term) >> 17\<close> by adding \<open>2^16\<close> before
  the shift. The optimal variant does not: at \<open>y = 3\<close>, \<open>x = 1\<close> its step returns 4, where the
  rounded quotient \<open>(y * term + 2^16) >> 17\<close> of its own \<open>term\<close> is 5.
\<close>

theorem newton_rounding_counterexample:
  "unat (q16_newton_step_opt 3 1) = 4
   \<and> (unat (3 :: u32) * unat (newton_term_opt 3 1) + 2 ^ 16) div 2 ^ 17 = 5"
  by (simp add: unat_q16_newton_step_opt unat_newton_term_opt nat_eval)

text \<open>
  Claim C6, as amended. The reference step rounds both of its shifts to nearest: its result
  is \<open>(y * term + 2^16) >> 17\<close>, and its \<open>term\<close> is \<open>3 * 2^16\<close> minus
  \<open>(x * y2_hi << 16) + ((x * y2_lo + 2^15) >> 16)\<close>, all modulo \<open>2^32\<close>. The optimal step
  truncates both: its result is \<open>((y * term_hi) >> 1) + ((y * term_lo) >> 17)\<close> with \<open>y\<close> masked
  to 16 bits (and the first summand 0 when \<open>term_hi > 3\<close>), and its \<open>term\<close> uses
  \<open>(x_lo * y2_lo) >> 16\<close>; no half unit is added anywhere.
\<close>

theorem newton_step_rounding:
  "unat (q16_newton_step_ref y x)
     = (unat y * unat (newton_term_ref y x) + 2 ^ 16) div 2 ^ 17 mod 2 ^ 32
   \<and> unat (newton_term_ref y x)
     = (3 * 2 ^ 16 + 2 ^ 32
         - (unat x * (unat y * unat y div 2 ^ 32) * 2 ^ 16
             + (unat x * (unat y * unat y mod 2 ^ 32) + 2 ^ 15) div 2 ^ 16) mod 2 ^ 32) mod 2 ^ 32
   \<and> unat (q16_newton_step_opt y x)
     = y_mul_hi_nat (unat (newton_term_opt (y AND 0xFFFF) x) div 2 ^ 16) (unat y mod 2 ^ 16) div 2
       + (unat y mod 2 ^ 16) * (unat (newton_term_opt (y AND 0xFFFF) x) mod 2 ^ 16) div 2 ^ 17
   \<and> unat (newton_term_opt y x)
     = (3 * 2 ^ 16 + 2 ^ 32
         - xy2_q16_opt_nat ((unat y mod 2 ^ 16) * (unat y mod 2 ^ 16)) (unat x)) mod 2 ^ 32"
proof -
  have "unat (q16_newton_step_ref y x)
      = (unat y * unat (newton_term_ref y x) + 2 ^ 16) div 2 ^ 17 mod 2 ^ 32"
    by (simp only: unat_q16_newton_step_ref q16_newton_step_ref_nat_def unat_newton_term_ref)
  moreover have "unat (newton_term_ref y x)
      = (3 * 2 ^ 16 + 2 ^ 32
         - (unat x * (unat y * unat y div 2 ^ 32) * 2 ^ 16
             + (unat x * (unat y * unat y mod 2 ^ 32) + 2 ^ 15) div 2 ^ 16) mod 2 ^ 32) mod 2 ^ 32"
    by (simp only: unat_newton_term_ref newton_term_ref_nat_def xy2_q16_ref_nat_def)
  moreover have "unat (q16_newton_step_opt y x)
      = y_mul_hi_nat (unat (newton_term_opt (y AND 0xFFFF) x) div 2 ^ 16) (unat y mod 2 ^ 16) div 2
        + (unat y mod 2 ^ 16) * (unat (newton_term_opt (y AND 0xFFFF) x) mod 2 ^ 16) div 2 ^ 17"
    by (simp add: unat_q16_newton_step_opt q16_newton_step_opt_nat_def newton_combine_opt_nat_def
        unat_newton_term_opt unat_low16)
  moreover have "unat (newton_term_opt y x)
      = (3 * 2 ^ 16 + 2 ^ 32
         - xy2_q16_opt_nat ((unat y mod 2 ^ 16) * (unat y mod 2 ^ 16)) (unat x)) mod 2 ^ 32"
    by (simp only: unat_newton_term_opt newton_term_opt_nat_def)
  ultimately show ?thesis
    by (intro conjI)
qed

section \<open>The table entries\<close>

lemma round_rsqrt_pow2:
  assumes "entry_rounds i n"
  shows "round (2 ^ 16 / sqrt (2 ^ i) :: real) = int n"
proof -
  define s :: real where "s = sqrt (2 ^ i)"
  have s0: "0 < s"
    by (simp add: s_def)
  have s2: "s\<^sup>2 = 2 ^ i"
    by (simp add: s_def)
  from assms have n: "0 < n" and lo: "(2 * n - 1)\<^sup>2 * 2 ^ i \<le> 2 ^ 34"
    and hi: "2 ^ 34 < (2 * n + 1)\<^sup>2 * 2 ^ i"
    by (simp_all add: entry_rounds_def)
  have a: "real (2 * n - 1) = 2 * real n - 1"
    using n by (simp add: of_nat_diff)
  have "real ((2 * n - 1)\<^sup>2 * 2 ^ i) \<le> real (2 ^ 34)"
    using lo by (simp only: of_nat_le_iff)
  then have "(2 * real n - 1)\<^sup>2 * 2 ^ i \<le> 2 ^ 34"
    by (simp only: of_nat_mult of_nat_power of_nat_numeral a)
  then have "((2 * real n - 1) * s)\<^sup>2 \<le> (2 ^ 17)\<^sup>2"
    by (simp add: power_mult_distrib s2)
  then have "(2 * real n - 1) * s \<le> 2 ^ 17"
    by (rule power2_le_imp_le) simp
  then have l: "real n - 1 / 2 \<le> 2 ^ 16 / s"
    using s0 by (simp add: field_simps)
  have "real (2 ^ 34) < real ((2 * n + 1)\<^sup>2 * 2 ^ i)"
    using hi by (simp only: of_nat_less_iff)
  then have "2 ^ 34 < (2 * real n + 1)\<^sup>2 * 2 ^ i"
    by (simp only: of_nat_mult of_nat_power of_nat_numeral of_nat_add of_nat_1)
  then have "(2 ^ 17)\<^sup>2 < ((2 * real n + 1) * s)\<^sup>2"
    by (simp add: power_mult_distrib s2)
  moreover have "0 \<le> (2 * real n + 1) * s"
    using s0 by simp
  ultimately have "2 ^ 17 < (2 * real n + 1) * s"
    by (rule power2_less_imp_less)
  then have u: "2 ^ 16 / s < real n + 1 / 2"
    using s0 by (simp add: field_simps)
  have "\<lfloor>2 ^ 16 / s + 1 / 2\<rfloor> = int n"
    using l u by (intro floor_unique) simp_all
  then show ?thesis
    by (simp add: round_def s_def)
qed

lemma table_entries_checked:
  "\<forall>i \<in> set ([1..<19] @ [20..<32]). entry_rounds i (rsqrt_table_nat ! i)"
  by (simp add: rsqrt_table_nat_eq entry_rounds_def upt_rec [of _ "numeral k" for k])

lemma unat_table_entry:
  assumes "i < 32"
  shows "unat (rsqrt_table_ref ! i) = rsqrt_table_nat ! i"
    and "unat (rsqrt_table_opt ! i) = rsqrt_table_nat ! i"
  using assms by (simp_all add: rsqrt_table_nat_def rsqrt_tables_equal length_rsqrt_table_ref)

text \<open>
  Claim C5, as amended. For every index from 1 to 31 other than 19, the entry of the table of
  either variant is \<open>2^16 / sqrt (2^i)\<close> rounded to nearest. Entry 0 is \<open>2^16 - 1\<close>, the largest
  16-bit value. The tables have 32 entries, each a 16-bit word by its type, and they are
  constants: no function of the model takes or returns a table.
\<close>

theorem table_entries_rounded:
  assumes "1 \<le> i" and "i \<le> 31" and "i \<noteq> 19"
  shows "int (unat (rsqrt_table_ref ! i)) = round (2 ^ 16 / sqrt (2 ^ i) :: real)
    \<and> int (unat (rsqrt_table_opt ! i)) = round (2 ^ 16 / sqrt (2 ^ i) :: real)
    \<and> unat (rsqrt_table_ref ! 0) = 2 ^ 16 - 1 \<and> unat (rsqrt_table_opt ! 0) = 2 ^ 16 - 1
    \<and> length rsqrt_table_ref = 32 \<and> length rsqrt_table_opt = 32"
proof -
  from assms have "i \<in> set ([1..<19] @ [20..<32])"
    by (simp only: set_append set_upt Un_iff atLeastLessThan_iff) arith
  with table_entries_checked have "entry_rounds i (rsqrt_table_nat ! i)"
    by blast
  then have "round (2 ^ 16 / sqrt (2 ^ i) :: real) = int (rsqrt_table_nat ! i)"
    by (rule round_rsqrt_pow2)
  moreover have "i < 32"
    using assms by simp
  ultimately have "int (unat (rsqrt_table_ref ! i)) = round (2 ^ 16 / sqrt (2 ^ i) :: real)"
    and "int (unat (rsqrt_table_opt ! i)) = round (2 ^ 16 / sqrt (2 ^ i) :: real)"
    by (simp_all add: unat_table_entry)
  moreover have "unat (rsqrt_table_ref ! 0) = 2 ^ 16 - 1" and "unat (rsqrt_table_opt ! 0) = 2 ^ 16 - 1"
    and "length rsqrt_table_ref = 32" and "length rsqrt_table_opt = 32"
    by (simp_all add: rsqrt_table_ref_def rsqrt_table_opt_def)
  ultimately show ?thesis
    by (intro conjI)
qed

theorem table_entries_rounded_witness:
  "(1::nat) \<le> 7 \<and> (7::nat) \<le> 31 \<and> (7::nat) \<noteq> 19
    \<and> int (unat (rsqrt_table_ref ! 7)) = round (2 ^ 16 / sqrt (2 ^ 7) :: real)
    \<and> unat (rsqrt_table_ref ! 7) = 5793"
proof -
  have "int (unat (rsqrt_table_ref ! 7)) = round (2 ^ 16 / sqrt (2 ^ 7) :: real)"
    using table_entries_rounded [of 7] by simp
  moreover have "unat (rsqrt_table_ref ! 7) = 5793"
    by (simp add: rsqrt_table_ref_def)
  ultimately show ?thesis
    by simp
qed

text \<open>
  Claim C5 as stated covers all indices from 0 to 31. Entry 0 is 65535 where the rounded value
  is 65536, and entry 19 is 90 where the rounded value is 91.
\<close>

theorem table_entries_counterexample:
  "unat (rsqrt_table_ref ! 0) = 65535 \<and> unat (rsqrt_table_opt ! 0) = 65535
   \<and> round (2 ^ 16 / sqrt (2 ^ 0) :: real) = 65536
   \<and> unat (rsqrt_table_ref ! 19) = 90 \<and> unat (rsqrt_table_opt ! 19) = 90
   \<and> round (2 ^ 16 / sqrt (2 ^ 19) :: real) = 91"
proof -
  have "entry_rounds 19 91"
    by (simp add: entry_rounds_def)
  then have "round (2 ^ 16 / sqrt (2 ^ 19) :: real) = int 91"
    by (rule round_rsqrt_pow2)
  moreover have "round (2 ^ 16 / sqrt (2 ^ 0) :: real) = 65536"
    by simp
  ultimately show ?thesis
    by (simp add: rsqrt_table_ref_def rsqrt_table_opt_def)
qed

section \<open>The seed is non-increasing\<close>

lemma table_nat_sorted: "sorted_wrt (\<ge>) rsqrt_table_nat"
  by (simp add: rsqrt_table_nat_eq)

lemma table_nat_antitone:
  assumes "i \<le> j" and "j \<le> 31"
  shows "rsqrt_table_nat ! j \<le> rsqrt_table_nat ! i"
proof (cases "i = j")
  case True
  then show ?thesis
    by simp
next
  case False
  with assms have "i < j" and "j < length rsqrt_table_nat"
    by (simp_all add: rsqrt_table_nat_eq)
  with table_nat_sorted show ?thesis
    by (simp add: sorted_wrt_iff_nth_less)
qed

lemma frac_at_less:
  assumes "n < 2 ^ (e + 1)"
  shows "frac_at e n < 2 ^ 16"
proof -
  have "n - 2 ^ e < 2 ^ e"
    using assms by simp
  then have "(n - 2 ^ e) * 2 ^ 16 < 2 ^ e * 2 ^ 16"
    by simp
  then show ?thesis
    by (simp add: frac_at_def less_mult_imp_div_less mult.commute)
qed

lemma frac_at_mono: "n \<le> m \<Longrightarrow> frac_at e n \<le> frac_at e m"
  by (simp add: frac_at_def div_le_mono diff_le_mono)

lemma seed_at_bounds:
  assumes "e \<le> 31" and "n < 2 ^ (e + 1)"
  shows "seed_at e n \<le> rsqrt_table_nat ! e"
    and "(if e < 31 then rsqrt_table_nat ! (e + 1) else 1) \<le> seed_at e n"
proof -
  let ?yb = "rsqrt_table_nat ! e"
  let ?yn = "if e < 31 then rsqrt_table_nat ! (e + 1) else 1"
  show "seed_at e n \<le> ?yb"
    by (simp add: seed_at_def)
  have le: "?yn \<le> ?yb"
  proof (cases "e < 31")
    case True
    then show ?thesis
      using table_nat_decreasing [OF True] by simp
  next
    case False
    with assms(1) have "e = 31"
      by simp
    then show ?thesis
      by (simp add: table_nat_facts(3))
  qed
  have "(?yb - ?yn) * frac_at e n div 2 ^ 16 \<le> ?yb - ?yn"
    using frac_at_less [OF assms(2)] by (rule div_two16_le)
  with le have "?yn \<le> ?yb - (?yb - ?yn) * frac_at e n div 2 ^ 16"
    by simp
  then show "?yn \<le> seed_at e n"
    by (simp only: seed_at_def)
qed

lemma seed_at_antitone:
  assumes "n \<le> m"
  shows "seed_at e m \<le> seed_at e n"
proof -
  let ?d = "rsqrt_table_nat ! e - (if e < 31 then rsqrt_table_nat ! (e + 1) else 1)"
  have "?d * frac_at e n \<le> ?d * frac_at e m"
    using frac_at_mono [OF assms] by (rule mult_le_mono2)
  then have "?d * frac_at e n div 2 ^ 16 \<le> ?d * frac_at e m div 2 ^ 16"
    by (rule div_le_mono)
  then show ?thesis
    unfolding seed_at_def by (rule diff_le_mono2)
qed

lemma highest_bit_mono: "n \<le> m \<Longrightarrow> highest_bit n \<le> highest_bit m"
  by (simp add: highest_bit_def floorlog_mono diff_le_mono)

lemma highest_bit_le_31:
  assumes "0 < n" and "n < 2 ^ 32"
  shows "highest_bit n \<le> 31"
proof -
  have "(2::nat) ^ highest_bit n < 2 ^ 32"
    using highest_bit_bounds(1) [OF assms(1)] assms(2) by (rule le_less_trans)
  then have "highest_bit n < 32"
    by (rule power_less_imp_less_exp [rotated]) simp
  then show ?thesis
    by simp
qed

lemma seed_nat_antitone:
  assumes "0 < a" and "a \<le> b" and "b < 2 ^ 32"
  shows "seed_nat b \<le> seed_nat a"
proof -
  let ?ea = "highest_bit a" and ?eb = "highest_bit b"
  have b0: "0 < b"
    using assms by simp
  have eab: "?ea \<le> ?eb"
    using assms(2) by (rule highest_bit_mono)
  have eb: "?eb \<le> 31"
    using b0 assms(3) by (rule highest_bit_le_31)
  show ?thesis
  proof (cases "?ea = ?eb")
    case True
    then show ?thesis
      using seed_at_antitone [OF assms(2), of ?eb] by (simp add: seed_nat_def)
  next
    case False
    with eab eb have lt: "?ea < ?eb" and ea: "?ea < 31"
      by simp_all
    have "seed_nat b \<le> rsqrt_table_nat ! ?eb"
      using seed_at_bounds(1) [OF eb highest_bit_bounds(2) [OF b0]] by (simp add: seed_nat_def)
    also have "\<dots> \<le> rsqrt_table_nat ! (?ea + 1)"
      using lt eb by (intro table_nat_antitone) simp_all
    also have "\<dots> \<le> seed_nat a"
      using seed_at_bounds(2) [OF _ highest_bit_bounds(2) [OF assms(1)]] ea
      by (simp add: seed_nat_def)
    finally show ?thesis .
  qed
qed

section \<open>The evaluation on integers is sound\<close>

subsection \<open>The integer stages have the values of the arithmetic reading\<close>

lemma rsqrt_table_int_eq: "rsqrt_table_int = map int rsqrt_table_nat"
  by (simp add: rsqrt_table_int_def rsqrt_table_nat_eq)

lemma rsqrt_table_int_nth:
  assumes "e < 32"
  shows "rsqrt_table_int ! e = int (rsqrt_table_nat ! e)"
proof -
  have "length rsqrt_table_nat = 32"
    by (simp add: rsqrt_table_nat_eq)
  with assms show ?thesis
    by (simp only: rsqrt_table_int_eq nth_map)
qed

lemma highest_bit_int_nat:
  assumes "0 < n"
  shows "highest_bit_int (int n) = highest_bit n"
  using assms
proof (induction n rule: less_induct)
  case (less n)
  show ?case
  proof (cases "n \<le> 1")
    case True
    with less.prems have "n = 1"
      by simp
    then show ?thesis
      by (simp add: highest_bit_int.simps [of 1] highest_bit_def compute_floorlog)
  next
    case False
    then have h: "0 < n div 2" "n div 2 < n"
      by simp_all
    have "highest_bit_int (int n) = Suc (highest_bit_int (int (n div 2)))"
      using False by (subst highest_bit_int.simps) (simp add: drop_bit_eq_div zdiv_int)
    also have "\<dots> = Suc (highest_bit (n div 2))"
      using less.IH [OF h(2) h(1)] by simp
    also have "\<dots> = floorlog 2 (n div 2)"
      using h(1) by (simp add: highest_bit_def floorlog_def)
    also have "\<dots> = highest_bit n"
      using less.prems by (simp add: highest_bit_def compute_floorlog [of 2 n])
    finally show ?thesis .
  qed
qed

lemma frac_int_nat:
  assumes "2 ^ e \<le> n"
  shows "frac_int e (int n) = int (frac_at e n)"
proof -
  have "int n - 2 ^ e = int (n - 2 ^ e)"
    using assms by (simp add: of_nat_diff)
  then show ?thesis
    by (simp add: frac_int_def frac_at_def drop_bit_eq_div push_bit_eq_mult zdiv_int)
qed

lemma interpolate_int_nat:
  assumes "yn \<le> yb" and "fr < 2 ^ 16"
  shows "interpolate_int (int yb) (int yn) (int fr) = int (yb - (yb - yn) * fr div 2 ^ 16)"
proof -
  have "(yb - yn) * fr \<le> (yb - yn) * 2 ^ 16"
    using assms(2) by simp
  then have "(yb - yn) * fr div 2 ^ 16 \<le> (yb - yn) * 2 ^ 16 div 2 ^ 16"
    by (rule div_le_mono)
  then have le: "(yb - yn) * fr div 2 ^ 16 \<le> yb"
    by simp
  have d: "int yb - int yn = int (yb - yn)"
    using assms(1) by (simp add: of_nat_diff)
  have "interpolate_int (int yb) (int yn) (int fr) = int yb - int ((yb - yn) * fr div 2 ^ 16)"
    unfolding interpolate_int_def drop_bit_eq_div d
    by (simp only: zdiv_int of_nat_mult of_nat_power of_nat_numeral)
  also have "\<dots> = int (yb - (yb - yn) * fr div 2 ^ 16)"
    using le by (simp add: of_nat_diff)
  finally show ?thesis .
qed

lemma seed_at_int_nat:
  assumes "e \<le> 31" and "2 ^ e \<le> n" and "n < 2 ^ (e + 1)"
  shows "seed_at_int e (int n) = int (seed_at e n)"
proof -
  let ?yb = "rsqrt_table_nat ! e"
  let ?yn = "if e < 31 then rsqrt_table_nat ! (e + 1) else 1"
  have yb: "rsqrt_table_int ! e = int ?yb"
    using assms(1) by (simp add: rsqrt_table_int_nth)
  have yn: "(if e < 31 then rsqrt_table_int ! Suc e else 1) = int ?yn"
    by (simp add: rsqrt_table_int_nth)
  have le: "?yn \<le> ?yb"
  proof (cases "e < 31")
    case True
    then show ?thesis
      using table_nat_decreasing [OF True] by simp
  next
    case False
    with assms(1) have "e = 31"
      by simp
    then show ?thesis
      by (simp add: table_nat_facts(3))
  qed
  have "seed_at_int e (int n) = interpolate_int (int ?yb) (int ?yn) (int (frac_at e n))"
    by (simp only: seed_at_int_def yb yn frac_int_nat [OF assms(2)])
  also have "\<dots> = int (?yb - (?yb - ?yn) * frac_at e n div 2 ^ 16)"
    using le frac_at_less [OF assms(3)] by (rule interpolate_int_nat)
  finally show ?thesis
    by (simp only: seed_at_def)
qed

lemma seed_int_nat:
  assumes "0 < n" and "n < 2 ^ 32"
  shows "seed_int (int n) = int (seed_nat n)"
  using seed_at_int_nat [OF highest_bit_le_31 [OF assms] highest_bit_bounds [OF assms(1)]]
  by (simp add: seed_int_def seed_nat_def highest_bit_int_nat [OF assms(1)])

lemma step_ref_int_nonneg:
  assumes "0 \<le> step_ref_int y x"
  shows "0 \<le> y" and "y \<le> 65536" and "drop_bit 16 (x * (y * y) + 32768) \<le> 196608"
  using assms by (simp_all add: step_ref_int_def step_ref_term_def split: if_splits)

lemma step_ref_int_eq:
  assumes "0 \<le> step_ref_int y x"
  shows "step_ref_int y x = (y * (196608 - (x * (y * y) + 32768) div 65536) + 65536) div 131072"
  using assms by (simp add: step_ref_int_def step_ref_term_def drop_bit_eq_div split: if_splits)

lemma xy2_q16_ref_nat_eq: "xy2_q16_ref_nat y2 x = (x * y2 + 2 ^ 15) div 2 ^ 16 mod 2 ^ 32"
proof -
  define h l where "h = y2 div 4294967296" and "l = y2 mod 4294967296"
  have y2: "y2 = h * 4294967296 + l"
    by (simp add: h_def l_def)
  have "x * y2 + 32768 = (x * l + 32768) + (x * h * 65536) * 65536"
    unfolding y2 by (simp add: algebra_simps)
  also have "\<dots> div 65536 = x * h * 65536 + (x * l + 32768) div 65536"
    by (rule div_mult_self1) simp
  finally have "(x * y2 + 32768) div 65536 = x * h * 65536 + (x * l + 32768) div 65536" .
  then show ?thesis
    by (simp add: xy2_q16_ref_nat_def h_def l_def)
qed

lemma step_ref_int_nat:
  assumes "0 \<le> step_ref_int (int y) (int x)"
  shows "step_ref_int (int y) (int x) = int (q16_newton_step_ref_nat y x)"
proof -
  define t where "t = (x * (y * y) + 32768) div 65536"
  have y: "y \<le> 65536"
    using step_ref_int_nonneg(2) [OF assms] by simp
  have it: "int t = (int x * (int y * int y) + 32768) div 65536"
    by (simp add: t_def zdiv_int)
  have "int t \<le> 196608"
    using step_ref_int_nonneg(3) [OF assms] by (simp add: drop_bit_eq_div it)
  then have t: "t \<le> 196608"
    by simp
  then have "t mod 4294967296 = t"
    by simp
  then have x: "xy2_q16_ref_nat (y * y) x = t"
    by (simp add: xy2_q16_ref_nat_eq t_def)
  have "196608 + 4294967296 - t = (196608 - t) + 4294967296"
    using t by simp
  then have "(196608 + 4294967296 - t) mod 4294967296 = (196608 - t) mod 4294967296"
    by (simp only: mod_add_self2)
  then have tm: "newton_term_ref_nat y x = 196608 - t"
    by (simp add: newton_term_ref_nat_def x)
  have "y * (196608 - t) \<le> 65536 * 196608"
    using y by (intro mult_mono) simp_all
  then have "(y * (196608 - t) + 65536) div 131072 \<le> (65536 * 196608 + 65536) div 131072"
    by (intro div_le_mono) simp
  then have "(y * (196608 - t) + 65536) div 131072 < 4294967296"
    by simp
  then have n: "q16_newton_step_ref_nat y x = (y * (196608 - t) + 65536) div 131072"
    by (simp add: q16_newton_step_ref_nat_def tm)
  have "int (196608 - t) = 196608 - int t"
    using t by (simp add: of_nat_diff)
  then have "int (q16_newton_step_ref_nat y x) = (int y * (196608 - int t) + 65536) div 131072"
    by (simp add: n zdiv_int)
  then show ?thesis
    by (simp only: step_ref_int_eq [OF assms] it)
qed

lemma step_opt_int_nonneg:
  assumes "0 \<le> step_opt_int y x"
  shows "0 \<le> y" and "y < 65536" and "drop_bit 16 (x * (y * y)) \<le> 196608"
  using assms by (simp_all add: step_opt_int_def step_opt_term_def split: if_splits)

lemma step_opt_int_eq:
  assumes "0 \<le> step_opt_int y x"
  shows "step_opt_int y x = combine_opt_int y (196608 - x * (y * y) div 65536)"
  using assms by (simp add: step_opt_int_def step_opt_term_def drop_bit_eq_div split: if_splits)

lemma xy2_q16_opt_nat_eq: "xy2_q16_opt_nat y2 x = x * y2 div 2 ^ 16 mod 2 ^ 32"
proof -
  define xh xl yh yl where "xh = x div 65536" and "xl = x mod 65536"
    and "yh = y2 div 65536" and "yl = y2 mod 65536"
  have x: "x = xh * 65536 + xl" and y2: "y2 = yh * 65536 + yl"
    by (simp_all add: xh_def xl_def yh_def yl_def)
  have "x * y2 = xl * yl + (xh * yh * 65536 + xl * yh + xh * yl) * 65536"
    unfolding x y2 by (simp add: algebra_simps)
  also have "\<dots> div 65536 = (xh * yh * 65536 + xl * yh + xh * yl) + xl * yl div 65536"
    by (rule div_mult_self1) simp
  finally have "x * y2 div 65536 = xh * yh * 65536 + xl * yh + xh * yl + xl * yl div 65536" .
  then show ?thesis
    by (simp add: xy2_q16_opt_nat_def xh_def xl_def yh_def yl_def)
qed

lemma combine_opt_int_nat:
  assumes "tm \<le> 196608"
  shows "combine_opt_int (int y) (int tm) = int (newton_combine_opt_nat y tm)"
proof -
  define th where "th = tm div 65536"
  have "th \<le> 196608 div 65536"
    unfolding th_def using assms by (rule div_le_mono)
  then have "th = 0 \<or> th = 1 \<or> th = 2 \<or> th = 3"
    by auto
  then have h: "y_mul_hi_nat th y = th * y"
    by (auto simp: y_mul_hi_nat_def)
  have "combine_opt_int (int y) (int tm)
      = int (th * y) div 2 + int (y * (tm mod 65536)) div 131072"
    by (simp add: combine_opt_int_def drop_bit_eq_div take_bit_eq_mod th_def zdiv_int zmod_int)
  also have "\<dots> = int (th * y div 2 + y * (tm mod 65536) div 131072)"
    by (simp only: zdiv_int of_nat_add of_nat_numeral)
  finally have c: "combine_opt_int (int y) (int tm)
      = int (th * y div 2 + y * (tm mod 65536) div 131072)" .
  have h': "y_mul_hi_nat (tm div 65536) y = tm div 65536 * y"
    using h by (simp only: th_def)
  have "newton_combine_opt_nat y tm = th * y div 2 + y * (tm mod 65536) div 131072"
    by (simp add: newton_combine_opt_nat_def h' th_def)
  with c show ?thesis
    by simp
qed

lemma step_opt_int_nat:
  assumes "0 \<le> step_opt_int (int y) (int x)"
  shows "step_opt_int (int y) (int x) = int (q16_newton_step_opt_nat y x)"
proof -
  define t where "t = x * (y * y) div 65536"
  have y: "y < 65536"
    using step_opt_int_nonneg(2) [OF assms] by simp
  then have ym: "y mod 65536 = y"
    by simp
  have it: "int t = int x * (int y * int y) div 65536"
    by (simp add: t_def zdiv_int)
  have "int t \<le> 196608"
    using step_opt_int_nonneg(3) [OF assms] by (simp add: drop_bit_eq_div it)
  then have t: "t \<le> 196608"
    by simp
  then have "t mod 4294967296 = t"
    by simp
  then have x: "xy2_q16_opt_nat (y * y) x = t"
    by (simp add: xy2_q16_opt_nat_eq t_def)
  have "196608 + 4294967296 - t = (196608 - t) + 4294967296"
    using t by simp
  then have "(196608 + 4294967296 - t) mod 4294967296 = (196608 - t) mod 4294967296"
    by (simp only: mod_add_self2)
  then have tm: "newton_term_opt_nat y x = 196608 - t"
    by (simp add: newton_term_opt_nat_def ym x)
  have n: "q16_newton_step_opt_nat y x = newton_combine_opt_nat y (196608 - t)"
    by (simp add: q16_newton_step_opt_nat_def ym tm)
  have d: "int (196608 - t) = 196608 - int t"
    using t by (simp add: of_nat_diff)
  have "combine_opt_int (int y) (int (196608 - t)) = int (newton_combine_opt_nat y (196608 - t))"
    by (rule combine_opt_int_nat) simp
  then show ?thesis
    by (simp only: step_opt_int_eq [OF assms] n d it)
qed

lemma rsqrt_ref_int_nat:
  assumes "0 < n" and "n < 2 ^ 32" and "0 \<le> rsqrt_ref_int (int n)"
  shows "rsqrt_ref_int (int n) = int (rsqrt_ref_nat n)"
proof -
  let ?s = "seed_nat n"
  have s: "seed_int (int n) = int ?s"
    using assms(1,2) by (rule seed_int_nat)
  from assms(3) have 2: "0 \<le> step_ref_int (step_ref_int (int ?s) (int n)) (int n)"
    by (simp only: rsqrt_ref_int_def s)
  then have 1: "0 \<le> step_ref_int (int ?s) (int n)"
    by (rule step_ref_int_nonneg(1))
  have e1: "step_ref_int (int ?s) (int n) = int (q16_newton_step_ref_nat ?s n)"
    using 1 by (rule step_ref_int_nat)
  from 2 have "0 \<le> step_ref_int (int (q16_newton_step_ref_nat ?s n)) (int n)"
    by (simp only: e1)
  then have "step_ref_int (int (q16_newton_step_ref_nat ?s n)) (int n)
      = int (q16_newton_step_ref_nat (q16_newton_step_ref_nat ?s n) n)"
    by (rule step_ref_int_nat)
  then show ?thesis
    using assms(1) by (simp add: rsqrt_ref_int_def rsqrt_ref_nat_def s e1)
qed

lemma rsqrt_opt_int_nat:
  assumes "0 < n" and "n < 2 ^ 32" and "0 \<le> rsqrt_opt_int (int n)"
  shows "rsqrt_opt_int (int n) = int (rsqrt_opt_nat n)"
proof -
  have s: "seed_int (int n) = int (seed_nat n)"
    using assms(1,2) by (rule seed_int_nat)
  from assms(3) have "0 \<le> step_opt_int (int (seed_nat n)) (int n)"
    by (simp only: rsqrt_opt_int_def s)
  then have "step_opt_int (int (seed_nat n)) (int n) = int (q16_newton_step_opt_nat (seed_nat n) n)"
    by (rule step_opt_int_nat)
  then show ?thesis
    using assms(1) by (simp add: rsqrt_opt_int_def rsqrt_opt_nat_def s)
qed

subsection \<open>A Newton step does not increase with the input\<close>

text \<open>
  For a fixed estimate \<open>y\<close> both Newton steps are non-increasing in \<open>x\<close>, as long as the step at
  the larger input stays within the side conditions. With the seed non-increasing, the result
  is non-increasing on every run.
\<close>

lemma step_ref_int_antitone:
  assumes "0 \<le> x" and "x \<le> x'" and "0 \<le> step_ref_int y x'"
  shows "step_ref_int y x' \<le> step_ref_int y x"
proof -
  define t t' where "t = (x * (y * y) + 32768) div 65536" and "t' = (x' * (y * y) + 32768) div 65536"
  have y: "0 \<le> y" "y \<le> 65536"
    using assms(3) by (rule step_ref_int_nonneg)+
  have t': "t' \<le> 196608"
    using step_ref_int_nonneg(3) [OF assms(3)] by (simp add: t'_def drop_bit_eq_div)
  have "x * (y * y) \<le> x' * (y * y)"
    using assms(2) by (rule mult_right_mono) simp
  then have tt: "t \<le> t'"
    unfolding t_def t'_def by (intro zdiv_mono1) simp_all
  have e: "step_ref_int y x = (y * (196608 - t) + 65536) div 131072"
    using y tt t' by (simp add: step_ref_int_def step_ref_term_def drop_bit_eq_div t_def)
  have e': "step_ref_int y x' = (y * (196608 - t') + 65536) div 131072"
    using y t' by (simp add: step_ref_int_def step_ref_term_def drop_bit_eq_div t'_def)
  have "y * (196608 - t') \<le> y * (196608 - t)"
    using y(1) tt by (intro mult_left_mono) simp_all
  then show ?thesis
    unfolding e e' by (intro zdiv_mono1) simp_all
qed

lemma combine_opt_int_mono:
  assumes "0 \<le> y" and "0 \<le> a" and "a \<le> b"
  shows "combine_opt_int y a \<le> combine_opt_int y b"
proof -
  define ah al bh bl where "ah = a div 65536" and "al = a mod 65536"
    and "bh = b div 65536" and "bl = b mod 65536"
  have a: "a = ah * 65536 + al" and b: "b = bh * 65536 + bl"
    by (simp_all add: ah_def al_def bh_def bl_def)
  have al: "0 \<le> al" "al < 65536" and bl: "0 \<le> bl" "bl < 65536"
    by (simp_all add: al_def bl_def)
  have ah: "0 \<le> ah"
    using assms(2) by (simp add: ah_def pos_imp_zdiv_nonneg_iff)
  have hh: "ah \<le> bh"
    unfolding ah_def bh_def using assms(3) by (intro zdiv_mono1) simp_all
  have ca: "combine_opt_int y a = ah * y div 2 + y * al div 131072"
    by (simp add: combine_opt_int_def drop_bit_eq_div take_bit_eq_mod ah_def al_def)
  have cb: "combine_opt_int y b = bh * y div 2 + y * bl div 131072"
    by (simp add: combine_opt_int_def drop_bit_eq_div take_bit_eq_mod bh_def bl_def)
  show ?thesis
  proof (cases "ah = bh")
    case True
    with a b assms(3) have "al \<le> bl"
      by simp
    then have "y * al \<le> y * bl"
      using assms(1) by (rule mult_left_mono)
    then have "y * al div 131072 \<le> y * bl div 131072"
      by (intro zdiv_mono1) simp_all
    with True show ?thesis
      by (simp add: ca cb)
  next
    case False
    with hh have "ah + 1 \<le> bh"
      by simp
    then have "(ah + 1) * y \<le> bh * y"
      using assms(1) by (rule mult_right_mono)
    then have s: "ah * y + y \<le> bh * y"
      by (simp add: algebra_simps)
    define q where "q = y * al div 131072"
    have "131072 * q \<le> y * al"
      unfolding q_def by (simp add: algebra_simps)
    also have "y * al \<le> y * 65536"
      using assms(1) al(2) by (intro mult_left_mono) simp_all
    finally have q2: "2 * q \<le> y"
      by simp
    have "0 \<le> y * bl"
      using assms(1) bl(1) by simp
    then have p: "0 \<le> y * bl div 131072"
      by (simp add: pos_imp_zdiv_nonneg_iff)
    have "ah * y div 2 + q = (ah * y + q * 2) div 2"
      by simp
    also have "\<dots> \<le> bh * y div 2"
      using s q2 by (intro zdiv_mono1) simp_all
    finally show ?thesis
      using p by (simp add: ca cb q_def)
  qed
qed

lemma step_opt_int_antitone:
  assumes "0 \<le> x" and "x \<le> x'" and "0 \<le> step_opt_int y x'"
  shows "step_opt_int y x' \<le> step_opt_int y x"
proof -
  define t t' where "t = x * (y * y) div 65536" and "t' = x' * (y * y) div 65536"
  have y: "0 \<le> y" "y < 65536"
    using assms(3) by (rule step_opt_int_nonneg)+
  have t': "t' \<le> 196608"
    using step_opt_int_nonneg(3) [OF assms(3)] by (simp add: t'_def drop_bit_eq_div)
  have "x * (y * y) \<le> x' * (y * y)"
    using assms(2) by (rule mult_right_mono) simp
  then have tt: "t \<le> t'"
    unfolding t_def t'_def by (intro zdiv_mono1) simp_all
  have e: "step_opt_int y x = combine_opt_int y (196608 - t)"
    using y tt t' by (simp add: step_opt_int_def step_opt_term_def drop_bit_eq_div t_def)
  have e': "step_opt_int y x' = combine_opt_int y (196608 - t')"
    using y t' by (simp add: step_opt_int_def step_opt_term_def drop_bit_eq_div t'_def)
  show ?thesis
    unfolding e e' using y(1) t' tt by (intro combine_opt_int_mono) simp_all
qed

lemma seed_int_antitone:
  assumes "1 \<le> a" and "a \<le> b" and "b < 2 ^ 32"
  shows "seed_int b \<le> seed_int a"
proof -
  have a: "0 < nat a" "nat a \<le> nat b" and b: "0 < nat b" "nat b < 2 ^ 32"
    using assms by simp_all
  have na: "nat a < 2 ^ 32"
    using a(2) b(2) by simp
  have "seed_int (int (nat b)) \<le> seed_int (int (nat a))"
    using seed_nat_antitone [OF a b(2)]
    by (simp only: seed_int_nat [OF a(1) na] seed_int_nat [OF b] of_nat_le_iff)
  then show ?thesis
    using assms by simp
qed

lemma run_ref_sound:
  assumes "0 \<le> snd (run_ref a b)" and "1 \<le> a" and "a \<le> b" and "b < 2 ^ 32"
  shows "fst (run_ref a b) = rsqrt_ref_int a \<and> snd (run_ref a b) = rsqrt_ref_int b
    \<and> (\<forall>x x'. a \<le> x \<and> x \<le> x' \<and> x' \<le> b \<longrightarrow> rsqrt_ref_int x' \<le> rsqrt_ref_int x)"
proof -
  define s c where "s = seed_int a" and "c = step_ref_int s a"
  have sb: "seed_int b = s"
    using assms(1) by (simp add: run_ref_def run_ref_seeds_def s_def split: if_splits)
  have cb: "step_ref_int s b = c"
    using assms(1)
    by (simp add: run_ref_def run_ref_seeds_def run_ref_steps_def s_def c_def split: if_splits)
  have r: "run_ref a b = (step_ref_int c a, step_ref_int c b)"
    by (simp add: run_ref_def run_ref_seeds_def run_ref_steps_def sb cb
        s_def [symmetric] c_def [symmetric])
  have zb: "0 \<le> step_ref_int c b"
    using assms(1) by (simp add: r)
  then have c0: "0 \<le> c"
    by (rule step_ref_int_nonneg(1))
  have mid: "rsqrt_ref_int x = step_ref_int c x" if "a \<le> x" and "x \<le> b" for x
  proof -
    have x: "1 \<le> x" "x < 2 ^ 32" "0 \<le> x"
      using that assms(2,4) by simp_all
    have "seed_int b \<le> seed_int x"
      using x(1) that(2) assms(4) by (rule seed_int_antitone)
    moreover have "seed_int x \<le> seed_int a"
      using assms(2) that(1) x(2) by (rule seed_int_antitone)
    ultimately have sx: "seed_int x = s"
      by (simp add: sb s_def)
    have 1: "step_ref_int s b \<le> step_ref_int s x"
      using x(3) that(2) c0 by (intro step_ref_int_antitone) (simp_all add: cb)
    then have "0 \<le> step_ref_int s x"
      using c0 by (simp add: cb)
    then have "step_ref_int s x \<le> step_ref_int s a"
      using assms(2) that(1) by (intro step_ref_int_antitone) simp_all
    with 1 have "step_ref_int s x = c"
      by (simp add: cb c_def)
    then show ?thesis
      by (simp add: rsqrt_ref_int_def sx)
  qed
  have "rsqrt_ref_int x' \<le> rsqrt_ref_int x" if "a \<le> x" and "x \<le> x'" and "x' \<le> b" for x x'
  proof -
    have x: "0 \<le> x" "0 \<le> x'"
      using that assms(2) by simp_all
    have "step_ref_int c b \<le> step_ref_int c x'"
      using x(2) that(3) zb by (rule step_ref_int_antitone)
    with zb have "0 \<le> step_ref_int c x'"
      by simp
    with x(1) that(2) have "step_ref_int c x' \<le> step_ref_int c x"
      by (rule step_ref_int_antitone)
    then show ?thesis
      using that by (simp add: mid)
  qed
  then show ?thesis
    using assms(3) by (simp add: r mid)
qed

lemma run_opt_sound:
  assumes "0 \<le> snd (run_opt a b)" and "1 \<le> a" and "a \<le> b" and "b < 2 ^ 32"
  shows "fst (run_opt a b) = rsqrt_opt_int a \<and> snd (run_opt a b) = rsqrt_opt_int b
    \<and> (\<forall>x x'. a \<le> x \<and> x \<le> x' \<and> x' \<le> b \<longrightarrow> rsqrt_opt_int x' \<le> rsqrt_opt_int x)"
proof -
  define s where "s = seed_int a"
  have sb: "seed_int b = s"
    using assms(1) by (simp add: run_opt_def run_opt_seeds_def s_def split: if_splits)
  have r: "run_opt a b = (step_opt_int s a, step_opt_int s b)"
    by (simp add: run_opt_def run_opt_seeds_def sb s_def [symmetric])
  have zb: "0 \<le> step_opt_int s b"
    using assms(1) by (simp add: r)
  have mid: "rsqrt_opt_int x = step_opt_int s x" if "a \<le> x" and "x \<le> b" for x
  proof -
    have x: "1 \<le> x" "x < 2 ^ 32"
      using that assms(2,4) by simp_all
    have "seed_int b \<le> seed_int x"
      using x(1) that(2) assms(4) by (rule seed_int_antitone)
    moreover have "seed_int x \<le> seed_int a"
      using assms(2) that(1) x(2) by (rule seed_int_antitone)
    ultimately have "seed_int x = s"
      by (simp add: sb s_def)
    then show ?thesis
      by (simp add: rsqrt_opt_int_def)
  qed
  have "rsqrt_opt_int x' \<le> rsqrt_opt_int x" if "a \<le> x" and "x \<le> x'" and "x' \<le> b" for x x'
  proof -
    have x: "0 \<le> x" "0 \<le> x'"
      using that assms(2) by simp_all
    have "step_opt_int s b \<le> step_opt_int s x'"
      using x(2) that(3) zb by (rule step_opt_int_antitone)
    with zb have "0 \<le> step_opt_int s x'"
      by simp
    with x(1) that(2) have "step_opt_int s x' \<le> step_opt_int s x"
      by (rule step_opt_int_antitone)
    then show ?thesis
      using that by (simp add: mid)
  qed
  then show ?thesis
    using assms(3) by (simp add: r mid)
qed

subsection \<open>Scans and walks over runs\<close>

lemma next_min_nonneg:
  assumes "0 \<le> next_min s ok x m y"
  shows "0 \<le> y" and "y \<le> m + s" and "ok y x" and "next_min s ok x m y = min m y"
  using assms by (simp_all add: next_min_def split: if_splits)

lemma scan_sound:
  assumes "scan s f ok lo hi m = v" and "0 \<le> v" and "0 \<le> s"
  shows "descends s f lo hi m v \<and> (\<forall>x. lo \<le> x \<and> x < hi \<longrightarrow> ok (f x) x)"
  using assms
proof (induction s f ok lo hi m rule: scan.induct)
  case (1 s f ok lo hi m)
  show ?case
  proof (cases "lo < hi \<and> 0 \<le> m")
    case False
    with "1.prems"(1) have vm: "v = m"
      by (simp add: scan.simps [of s f ok lo hi m])
    with False "1.prems"(2) have "hi \<le> lo"
      by simp
    with vm show ?thesis
      by (auto simp: descends_def)
  next
    case True
    define m' where "m' = next_min s ok lo m (f lo)"
    from True "1.prems"(1) have sc: "scan s f ok (lo + 1) hi m' = v"
      by (simp add: scan.simps [of s f ok lo hi m] m'_def)
    from "1.IH" [OF True sc [unfolded m'_def] "1.prems"(2,3)]
    have d: "descends s f (lo + 1) hi m' v" and k: "\<forall>x. lo + 1 \<le> x \<and> x < hi \<longrightarrow> ok (f x) x"
      by (simp_all add: m'_def)
    from d have vm': "v \<le> m'"
      by (simp add: descends_def)
    with "1.prems"(2) have "0 \<le> next_min s ok lo m (f lo)"
      by (simp add: m'_def)
    from next_min_nonneg [OF this]
    have y: "0 \<le> f lo" "f lo \<le> m + s" "ok (f lo) lo" and m': "m' \<le> m" "m' \<le> f lo"
      by (simp_all add: m'_def)
    have rest: "v \<le> f x \<and> f x \<le> m' + s \<and> (\<forall>x'. x \<le> x' \<and> x' < hi \<longrightarrow> f x' \<le> f x + s)"
      if "lo + 1 \<le> x" and "x < hi" for x
      using d that by (simp add: descends_def)
    have here: "f x' \<le> f lo + s" if "lo \<le> x'" and "x' < hi" for x'
    proof (cases "x' = lo")
      case True
      with "1.prems"(3) show ?thesis
        by simp
    next
      case False
      with that have "lo + 1 \<le> x'"
        by simp
      from rest [OF this that(2)] m' show ?thesis
        by simp
    qed
    have "v \<le> f x \<and> f x \<le> m + s \<and> (\<forall>x'. x \<le> x' \<and> x' < hi \<longrightarrow> f x' \<le> f x + s)"
      if "lo \<le> x" and "x < hi" for x
    proof (cases "x = lo")
      case True
      with vm' m' y(2) here show ?thesis
        by simp
    next
      case False
      with that have "lo + 1 \<le> x"
        by simp
      from rest [OF this that(2)] m' show ?thesis
        by simp
    qed
    moreover have "ok (f x) x" if "lo \<le> x" and "x < hi" for x
    proof (cases "x = lo")
      case True
      with y(3) show ?thesis
        by simp
    next
      case False
      with that k show ?thesis
        by simp
    qed
    moreover have "v \<le> m"
      using vm' m' by simp
    ultimately show ?thesis
      by (simp add: descends_def)
  qed
qed

lemma scan_append:
  assumes "scan s f ok lo mid m = v" and "lo \<le> mid" and "mid \<le> hi"
  shows "scan s f ok lo hi m = scan s f ok mid hi v"
  using assms
proof (induction s f ok lo mid m rule: scan.induct)
  case (1 s f ok lo mid m)
  show ?case
  proof (cases "lo < mid \<and> 0 \<le> m")
    case False
    with "1.prems"(1) have vm: "v = m"
      by (simp add: scan.simps [of s f ok lo mid m])
    show ?thesis
    proof (cases "0 \<le> m")
      case True
      with False "1.prems"(2) have "lo = mid"
        by simp
      with vm show ?thesis
        by simp
    next
      case False
      then show ?thesis
        by (simp add: vm scan.simps [of s f ok lo hi m] scan.simps [of s f ok mid hi m])
    qed
  next
    case True
    with "1.prems"(1) have sc: "scan s f ok (lo + 1) mid (next_min s ok lo m (f lo)) = v"
      by (simp add: scan.simps [of s f ok lo mid m])
    from True have le: "lo + 1 \<le> mid"
      by simp
    from "1.IH" [OF True sc le "1.prems"(3)] True "1.prems"(3) show ?thesis
      by (simp add: scan.simps [of s f ok lo hi m])
  qed
qed

lemma descends_append:
  assumes "descends s f lo mid m v" and "descends s f mid hi v w"
  shows "descends s f lo hi m w"
proof -
  from assms have vm: "v \<le> m" and wv: "w \<le> v"
    by (simp_all add: descends_def)
  have l: "v \<le> f x \<and> f x \<le> m + s \<and> (\<forall>x'. x \<le> x' \<and> x' < mid \<longrightarrow> f x' \<le> f x + s)"
    if "lo \<le> x" and "x < mid" for x
    using assms(1) that by (simp add: descends_def)
  have r: "w \<le> f x \<and> f x \<le> v + s \<and> (\<forall>x'. x \<le> x' \<and> x' < hi \<longrightarrow> f x' \<le> f x + s)"
    if "mid \<le> x" and "x < hi" for x
    using assms(2) that by (simp add: descends_def)
  have "w \<le> f x \<and> f x \<le> m + s \<and> (\<forall>x'. x \<le> x' \<and> x' < hi \<longrightarrow> f x' \<le> f x + s)"
    if "lo \<le> x" and "x < hi" for x
  proof (cases "x < mid")
    case True
    have "f x' \<le> f x + s" if "x \<le> x'" and "x' < hi" for x'
    proof (cases "x' < mid")
      case True
      with l [OF \<open>lo \<le> x\<close> \<open>x < mid\<close>] that show ?thesis
        by simp
    next
      case False
      with r [of x'] that have "f x' \<le> v + s"
        by simp
      with l [OF \<open>lo \<le> x\<close> True] show ?thesis
        by simp
    qed
    with l [OF that(1) True] wv show ?thesis
      by simp
  next
    case False
    with r [of x] that vm show ?thesis
      by simp
  qed
  with vm wv show ?thesis
    by (simp add: descends_def)
qed

lemma descends_slack:
  assumes "descends s f lo hi m v" and "s \<le> s'"
  shows "descends s' f lo hi m v"
proof -
  have "v \<le> f x \<and> f x \<le> m + s' \<and> (\<forall>x'. x \<le> x' \<and> x' < hi \<longrightarrow> f x' \<le> f x + s')"
    if "lo \<le> x" and "x < hi" for x
  proof -
    from assms(1) that
    have h: "v \<le> f x" "f x \<le> m + s" "\<forall>x'. x \<le> x' \<and> x' < hi \<longrightarrow> f x' \<le> f x + s"
      by (simp_all add: descends_def)
    have "f x' \<le> f x + s'" if "x \<le> x'" and "x' < hi" for x'
      using h(3) that assms(2) by force
    with h(1,2) assms(2) show ?thesis
      by simp
  qed
  moreover from assms(1) have "v \<le> m"
    by (simp add: descends_def)
  ultimately show ?thesis
    by (simp add: descends_def)
qed

lemma next_min_run_nonneg:
  assumes "0 \<le> next_min_run s m z"
  shows "0 \<le> snd z" and "snd z \<le> fst z" and "fst z \<le> m + s" and "next_min_run s m z = min m (snd z)"
  using assms by (simp_all add: next_min_run_def split: if_splits)

lemma runs_sound:
  assumes r: "\<And>a b. 0 \<le> snd (r a b) \<Longrightarrow> 1 \<le> a \<Longrightarrow> a \<le> b \<Longrightarrow> b < 2 ^ 32 \<Longrightarrow>
      fst (r a b) = f a \<and> snd (r a b) = f b
      \<and> (\<forall>x x'. a \<le> x \<and> x \<le> x' \<and> x' \<le> b \<longrightarrow> f x' \<le> f x)"
    and "runs s r a hi m bs = v" and "0 \<le> v" and "0 \<le> s" and "1 \<le> a" and "hi \<le> 2 ^ 32"
  shows "descends s f a hi m v"
  using assms(2,3,5)
proof (induction bs arbitrary: a m)
  case Nil
  then have "v = m" and "a = hi"
    by (simp_all split: if_splits)
  then show ?case
    by (auto simp: descends_def)
next
  case (Cons b bs)
  from Cons.prems(1,2) have c: "a \<le> b" "b < hi" "0 \<le> m"
    by (simp_all split: if_splits)
  define m' where "m' = next_min_run s m (r a b)"
  from Cons.prems(1) c have "runs s r (b + 1) hi m' bs = v"
    by (simp add: m'_def)
  from Cons.IH [OF this Cons.prems(2)] Cons.prems(3) c(1)
  have d: "descends s f (b + 1) hi m' v"
    by simp
  then have vm': "v \<le> m'"
    by (simp add: descends_def)
  with Cons.prems(2) have "0 \<le> next_min_run s m (r a b)"
    by (simp add: m'_def)
  from next_min_run_nonneg [OF this]
  have z: "0 \<le> snd (r a b)" "snd (r a b) \<le> fst (r a b)" "fst (r a b) \<le> m + s"
    and m': "m' \<le> m" "m' \<le> snd (r a b)"
    by (simp_all add: m'_def)
  have b: "b < 2 ^ 32"
    using c(2) assms(6) by simp
  from r [OF z(1) Cons.prems(3) c(1) b]
  have fa: "fst (r a b) = f a" and fb: "snd (r a b) = f b"
    and mono: "\<And>x x'. a \<le> x \<Longrightarrow> x \<le> x' \<Longrightarrow> x' \<le> b \<Longrightarrow> f x' \<le> f x"
    by simp_all
  have rest: "v \<le> f x \<and> f x \<le> m' + s \<and> (\<forall>x'. x \<le> x' \<and> x' < hi \<longrightarrow> f x' \<le> f x + s)"
    if "b + 1 \<le> x" and "x < hi" for x
    using d that by (simp add: descends_def)
  have "v \<le> f x \<and> f x \<le> m + s \<and> (\<forall>x'. x \<le> x' \<and> x' < hi \<longrightarrow> f x' \<le> f x + s)"
    if "a \<le> x" and "x < hi" for x
  proof (cases "x \<le> b")
    case True
    have 1: "f b \<le> f x"
      using that(1) True by (intro mono) simp_all
    have 2: "f x \<le> f a"
      using that(1) True by (intro mono) simp_all
    have "f x' \<le> f x + s" if "x \<le> x'" and "x' < hi" for x'
    proof (cases "x' \<le> b")
      case True
      with mono [OF \<open>a \<le> x\<close> that(1)] assms(4) show ?thesis
        by simp
    next
      case False
      with rest [of x'] that have "f x' \<le> m' + s"
        by simp
      with m' fb 1 show ?thesis
        by simp
    qed
    with 1 2 vm' m' fa fb z(3) show ?thesis
      by simp
  next
    case False
    with rest [of x] that m' show ?thesis
      by simp
  qed
  with vm' m' show ?case
    by (simp add: descends_def)
qed

section \<open>Evaluation of the two variants\<close>

text \<open>
  The scans of the small inputs, one thousand at a time, and the walks over the runs beyond
  them. Each lemma is an evaluation on numerals.
\<close>

lemma scan_ref_1: "scan 0 rsqrt_ref_int err_ref 1 1000 65536 = 2073"
  by code_simp

lemma scan_ref_2: "scan 0 rsqrt_ref_int err_ref 1000 2000 2073 = 1466"
  by code_simp

lemma scan_ref_3: "scan 0 rsqrt_ref_int err_ref 2000 3000 1466 = 1197"
  by code_simp

lemma scan_ref_4: "scan 0 rsqrt_ref_int err_ref 3000 4000 1197 = 1036"
  by code_simp

lemma scan_ref_5: "scan 0 rsqrt_ref_int err_ref 4000 5000 1036 = 927"
  by code_simp

lemma scan_ref_6: "scan 0 rsqrt_ref_int err_ref 5000 6000 927 = 846"
  by code_simp

lemma scan_ref_7: "scan 0 rsqrt_ref_int err_ref 6000 7000 846 = 783"
  by code_simp

lemma scan_ref_8: "scan 0 rsqrt_ref_int err_ref 7000 8000 783 = 733"
  by code_simp

lemma scan_ref_9: "scan 0 rsqrt_ref_int err_ref 8000 9000 733 = 691"
  by code_simp

lemma scan_ref_10: "scan 0 rsqrt_ref_int err_ref 9000 10000 691 = 655"
  by code_simp

lemma scan_ref_11: "scan 0 rsqrt_ref_int err_ref 10000 11000 655 = 625"
  by code_simp

lemma scan_ref_12: "scan 0 rsqrt_ref_int err_ref 11000 12000 625 = 598"
  by code_simp

lemma scan_ref_13: "scan 0 rsqrt_ref_int err_ref 12000 13000 598 = 575"
  by code_simp

lemma scan_ref_14: "scan 0 rsqrt_ref_int err_ref 13000 14000 575 = 554"
  by code_simp

lemma scan_ref_15: "scan 0 rsqrt_ref_int err_ref 14000 15000 554 = 535"
  by code_simp

lemma scan_ref_16: "scan 0 rsqrt_ref_int err_ref 15000 16000 535 = 518"
  by code_simp

lemma scan_ref_17: "scan 0 rsqrt_ref_int err_ref 16000 17000 518 = 503"
  by code_simp

lemma scan_ref_18: "scan 0 rsqrt_ref_int err_ref 17000 17353 503 = 498"
  by code_simp

lemma scan_ref: "scan 0 rsqrt_ref_int err_ref 1 17353 65536 = 498"
proof -
  have "scan 0 rsqrt_ref_int err_ref 1 17353 65536 = scan 0 rsqrt_ref_int err_ref 1000 17353 2073"
    by (rule scan_append [OF scan_ref_1]) simp_all
  also have "\<dots> = scan 0 rsqrt_ref_int err_ref 2000 17353 1466"
    by (rule scan_append [OF scan_ref_2]) simp_all
  also have "\<dots> = scan 0 rsqrt_ref_int err_ref 3000 17353 1197"
    by (rule scan_append [OF scan_ref_3]) simp_all
  also have "\<dots> = scan 0 rsqrt_ref_int err_ref 4000 17353 1036"
    by (rule scan_append [OF scan_ref_4]) simp_all
  also have "\<dots> = scan 0 rsqrt_ref_int err_ref 5000 17353 927"
    by (rule scan_append [OF scan_ref_5]) simp_all
  also have "\<dots> = scan 0 rsqrt_ref_int err_ref 6000 17353 846"
    by (rule scan_append [OF scan_ref_6]) simp_all
  also have "\<dots> = scan 0 rsqrt_ref_int err_ref 7000 17353 783"
    by (rule scan_append [OF scan_ref_7]) simp_all
  also have "\<dots> = scan 0 rsqrt_ref_int err_ref 8000 17353 733"
    by (rule scan_append [OF scan_ref_8]) simp_all
  also have "\<dots> = scan 0 rsqrt_ref_int err_ref 9000 17353 691"
    by (rule scan_append [OF scan_ref_9]) simp_all
  also have "\<dots> = scan 0 rsqrt_ref_int err_ref 10000 17353 655"
    by (rule scan_append [OF scan_ref_10]) simp_all
  also have "\<dots> = scan 0 rsqrt_ref_int err_ref 11000 17353 625"
    by (rule scan_append [OF scan_ref_11]) simp_all
  also have "\<dots> = scan 0 rsqrt_ref_int err_ref 12000 17353 598"
    by (rule scan_append [OF scan_ref_12]) simp_all
  also have "\<dots> = scan 0 rsqrt_ref_int err_ref 13000 17353 575"
    by (rule scan_append [OF scan_ref_13]) simp_all
  also have "\<dots> = scan 0 rsqrt_ref_int err_ref 14000 17353 554"
    by (rule scan_append [OF scan_ref_14]) simp_all
  also have "\<dots> = scan 0 rsqrt_ref_int err_ref 15000 17353 535"
    by (rule scan_append [OF scan_ref_15]) simp_all
  also have "\<dots> = scan 0 rsqrt_ref_int err_ref 16000 17353 518"
    by (rule scan_append [OF scan_ref_16]) simp_all
  also have "\<dots> = scan 0 rsqrt_ref_int err_ref 17000 17353 503"
    by (rule scan_append [OF scan_ref_17]) simp_all
  also have "\<dots> = 498"
    by (rule scan_ref_18)
  finally show ?thesis .
qed

lemma scan_opt_low_1: "scan 0 rsqrt_opt_int err_opt 1 1000 65535 = 2073"
  by code_simp

lemma scan_opt_low_2: "scan 0 rsqrt_opt_int err_opt 1000 1564 2073 = 1651"
  by code_simp

lemma scan_opt_low: "scan 0 rsqrt_opt_int err_opt 1 1564 65535 = 1651"
proof -
  have "scan 0 rsqrt_opt_int err_opt 1 1564 65535 = scan 0 rsqrt_opt_int err_opt 1000 1564 2073"
    by (rule scan_append [OF scan_opt_low_1]) simp_all
  also have "\<dots> = 1651"
    by (rule scan_opt_low_2)
  finally show ?thesis .
qed

lemma scan_opt_mid_1: "scan 1 rsqrt_opt_int err_opt 1564 2000 1651 = 1465"
  by code_simp

lemma scan_opt_mid_2: "scan 1 rsqrt_opt_int err_opt 2000 3000 1465 = 1192"
  by code_simp

lemma scan_opt_mid_3: "scan 1 rsqrt_opt_int err_opt 3000 4000 1192 = 1035"
  by code_simp

lemma scan_opt_mid_4: "scan 1 rsqrt_opt_int err_opt 4000 5000 1035 = 924"
  by code_simp

lemma scan_opt_mid_5: "scan 1 rsqrt_opt_int err_opt 5000 6000 924 = 842"
  by code_simp

lemma scan_opt_mid_6: "scan 1 rsqrt_opt_int err_opt 6000 6055 842 = 839"
  by code_simp

lemma scan_opt_mid: "scan 1 rsqrt_opt_int err_opt 1564 6055 1651 = 839"
proof -
  have "scan 1 rsqrt_opt_int err_opt 1564 6055 1651 = scan 1 rsqrt_opt_int err_opt 2000 6055 1465"
    by (rule scan_append [OF scan_opt_mid_1]) simp_all
  also have "\<dots> = scan 1 rsqrt_opt_int err_opt 3000 6055 1192"
    by (rule scan_append [OF scan_opt_mid_2]) simp_all
  also have "\<dots> = scan 1 rsqrt_opt_int err_opt 4000 6055 1035"
    by (rule scan_append [OF scan_opt_mid_3]) simp_all
  also have "\<dots> = scan 1 rsqrt_opt_int err_opt 5000 6055 924"
    by (rule scan_append [OF scan_opt_mid_4]) simp_all
  also have "\<dots> = scan 1 rsqrt_opt_int err_opt 6000 6055 842"
    by (rule scan_append [OF scan_opt_mid_5]) simp_all
  also have "\<dots> = 839"
    by (rule scan_opt_mid_6)
  finally show ?thesis .
qed

lemma runs_ref_low_1: "runs 0 run_ref 17353 27744 498 run_ends_ref_low_1 = 393"
  by code_simp

lemma runs_ref_low_2: "runs 0 run_ref 27744 49462 393 run_ends_ref_low_2 = 295"
  by code_simp

lemma runs_ref_low_3: "runs 0 run_ref 49462 110975 295 run_ends_ref_low_3 = 197"
  by code_simp

lemma runs_ref_low_4: "runs 0 run_ref 110975 462204 197 run_ends_ref_low_4 = 96"
  by code_simp

lemma runs_ref_low_5: "runs 0 run_ref 462204 1073741824 96 run_ends_ref_low_5 = 1"
  by code_simp

lemma runs_ref_low: "descends 0 rsqrt_ref_int 17353 1073741824 498 1"
proof -
  have d1: "descends 0 rsqrt_ref_int 17353 27744 498 393"
    by (rule runs_sound [OF run_ref_sound runs_ref_low_1]) simp_all
  have d2: "descends 0 rsqrt_ref_int 27744 49462 393 295"
    by (rule runs_sound [OF run_ref_sound runs_ref_low_2]) simp_all
  have d3: "descends 0 rsqrt_ref_int 49462 110975 295 197"
    by (rule runs_sound [OF run_ref_sound runs_ref_low_3]) simp_all
  have d4: "descends 0 rsqrt_ref_int 110975 462204 197 96"
    by (rule runs_sound [OF run_ref_sound runs_ref_low_4]) simp_all
  have d5: "descends 0 rsqrt_ref_int 462204 1073741824 96 1"
    by (rule runs_sound [OF run_ref_sound runs_ref_low_5]) simp_all
  from d1 d2 have c2: "descends 0 rsqrt_ref_int 17353 49462 498 295"
    by (rule descends_append)
  from c2 d3 have c3: "descends 0 rsqrt_ref_int 17353 110975 498 197"
    by (rule descends_append)
  from c3 d4 have c4: "descends 0 rsqrt_ref_int 17353 462204 498 96"
    by (rule descends_append)
  from c4 d5 show ?thesis
    by (rule descends_append)
qed

lemma runs_ref_high_1: "runs 0 run_ref 1073741824 4294967296 2 run_ends_ref_high = 1"
  by code_simp

lemma runs_ref_high: "descends 0 rsqrt_ref_int 1073741824 4294967296 2 1"
proof -
  have d1: "descends 0 rsqrt_ref_int 1073741824 4294967296 2 1"
    by (rule runs_sound [OF run_ref_sound runs_ref_high_1]) simp_all
  from d1 show ?thesis .
qed

lemma runs_opt_high_1: "runs 1 run_opt 6055 10666 839 run_ends_opt_1 = 632"
  by code_simp

lemma runs_opt_high_2: "runs 1 run_opt 10666 24358 632 run_ends_opt_2 = 418"
  by code_simp

lemma runs_opt_high_3: "runs 1 run_opt 24358 98741 418 run_ends_opt_3 = 207"
  by code_simp

lemma runs_opt_high_4: "runs 1 run_opt 98741 4294967296 207 run_ends_opt_4 = 1"
  by code_simp

lemma runs_opt_high: "descends 1 rsqrt_opt_int 6055 4294967296 839 1"
proof -
  have d1: "descends 1 rsqrt_opt_int 6055 10666 839 632"
    by (rule runs_sound [OF run_opt_sound runs_opt_high_1]) simp_all
  have d2: "descends 1 rsqrt_opt_int 10666 24358 632 418"
    by (rule runs_sound [OF run_opt_sound runs_opt_high_2]) simp_all
  have d3: "descends 1 rsqrt_opt_int 24358 98741 418 207"
    by (rule runs_sound [OF run_opt_sound runs_opt_high_3]) simp_all
  have d4: "descends 1 rsqrt_opt_int 98741 4294967296 207 1"
    by (rule runs_sound [OF run_opt_sound runs_opt_high_4]) simp_all
  from d1 d2 have c2: "descends 1 rsqrt_opt_int 6055 24358 839 418"
    by (rule descends_append)
  from c2 d3 have c3: "descends 1 rsqrt_opt_int 6055 98741 839 207"
    by (rule descends_append)
  from c3 d4 show ?thesis
    by (rule descends_append)
qed

section \<open>The results on all positive inputs\<close>

lemma descendsD:
  assumes "descends s f lo hi m v" and "lo \<le> x" and "x \<le> x'" and "x' < hi"
  shows "v \<le> f x" and "f x \<le> m + s" and "f x' \<le> f x + s"
proof -
  from assms(2-4) have x: "lo \<le> x \<and> x < hi" and x': "x \<le> x' \<and> x' < hi"
    by simp_all
  from assms(1) x
  have h: "v \<le> f x \<and> f x \<le> m + s \<and> (\<forall>x'. x \<le> x' \<and> x' < hi \<longrightarrow> f x' \<le> f x + s)"
    unfolding descends_def by blast
  from h show "v \<le> f x" and "f x \<le> m + s"
    by simp_all
  from h x' show "f x' \<le> f x + s"
    by blast
qed

lemma ref_int_low: "descends 0 rsqrt_ref_int 1 1073741824 65536 1"
proof -
  have "descends 0 rsqrt_ref_int 1 17353 65536 498"
    using scan_sound [OF scan_ref] by simp
  then show ?thesis
    using runs_ref_low by (rule descends_append)
qed

lemma opt_int_low: "descends 0 rsqrt_opt_int 1 1564 65535 1651"
  using scan_sound [OF scan_opt_low] by simp

lemma opt_int_all: "descends 1 rsqrt_opt_int 1 4294967296 65535 1"
proof -
  have "descends 1 rsqrt_opt_int 1 1564 65535 1651"
    using opt_int_low by (rule descends_slack) simp
  moreover have "descends 1 rsqrt_opt_int 1564 6055 1651 839"
    using scan_sound [OF scan_opt_mid] by simp
  ultimately have "descends 1 rsqrt_opt_int 1 6055 65535 839"
    by (rule descends_append)
  then show ?thesis
    using runs_opt_high by (rule descends_append)
qed

lemma rsqrt_ref_int_pos:
  assumes "1 \<le> x" and "x < 4294967296"
  shows "1 \<le> rsqrt_ref_int x"
proof (cases "x < 1073741824")
  case True
  with assms(1) show ?thesis
    by (intro descendsD(1) [OF ref_int_low, of x x]) simp_all
next
  case False
  with assms(2) show ?thesis
    by (intro descendsD(1) [OF runs_ref_high, of x x]) simp_all
qed

lemma rsqrt_opt_int_pos:
  assumes "1 \<le> x" and "x < 4294967296"
  shows "1 \<le> rsqrt_opt_int x"
  using assms by (intro descendsD(1) [OF opt_int_all, of x x]) simp_all

lemma rsqrt_ref_nat_int:
  assumes "0 < n" and "n < 2 ^ 32"
  shows "int (rsqrt_ref_nat n) = rsqrt_ref_int (int n)"
proof -
  have "1 \<le> rsqrt_ref_int (int n)"
    using assms by (intro rsqrt_ref_int_pos) simp_all
  then have "0 \<le> rsqrt_ref_int (int n)"
    by simp
  with assms show ?thesis
    by (simp only: rsqrt_ref_int_nat)
qed

lemma rsqrt_opt_nat_int:
  assumes "0 < n" and "n < 2 ^ 32"
  shows "int (rsqrt_opt_nat n) = rsqrt_opt_int (int n)"
proof -
  have "1 \<le> rsqrt_opt_int (int n)"
    using assms by (intro rsqrt_opt_int_pos) simp_all
  then have "0 \<le> rsqrt_opt_int (int n)"
    by simp
  with assms show ?thesis
    by (simp only: rsqrt_opt_int_nat)
qed

lemma rsqrt_ref_nat_antitone:
  assumes "0 < a" and "a \<le> b" and "b < 2 ^ 32"
  shows "rsqrt_ref_nat b \<le> rsqrt_ref_nat a
    \<or> (a < 2 ^ 30 \<and> 2 ^ 30 \<le> b \<and> rsqrt_ref_nat a = 1 \<and> rsqrt_ref_nat b = 2)"
proof -
  have a: "a < 2 ^ 32"
    using assms(2,3) by simp
  have b: "0 < b"
    using assms(1,2) by simp
  have ia: "int (rsqrt_ref_nat a) = rsqrt_ref_int (int a)"
    using assms(1) a by (rule rsqrt_ref_nat_int)
  have ib: "int (rsqrt_ref_nat b) = rsqrt_ref_int (int b)"
    using b assms(3) by (rule rsqrt_ref_nat_int)
  consider "b < 2 ^ 30" | "2 ^ 30 \<le> a" | "a < 2 ^ 30" and "2 ^ 30 \<le> b"
    by linarith
  then show ?thesis
  proof cases
    case 1
    have "rsqrt_ref_int (int b) \<le> rsqrt_ref_int (int a) + 0"
      using assms 1 by (intro descendsD(3) [OF ref_int_low]) simp_all
    then show ?thesis
      by (simp add: ia [symmetric] ib [symmetric])
  next
    case 2
    have "rsqrt_ref_int (int b) \<le> rsqrt_ref_int (int a) + 0"
      using assms 2 by (intro descendsD(3) [OF runs_ref_high]) simp_all
    then show ?thesis
      by (simp add: ia [symmetric] ib [symmetric])
  next
    case 3
    have "1 \<le> rsqrt_ref_int (int a)"
      using assms(1) a by (intro rsqrt_ref_int_pos) simp_all
    then have la: "1 \<le> rsqrt_ref_nat a"
      by (simp add: ia [symmetric])
    have "1 \<le> rsqrt_ref_int (int b)"
      using b assms(3) by (intro rsqrt_ref_int_pos) simp_all
    then have lb: "1 \<le> rsqrt_ref_nat b"
      by (simp add: ib [symmetric])
    have "rsqrt_ref_int (int b) \<le> 2 + 0"
      using 3(2) assms(3) by (intro descendsD(2) [OF runs_ref_high, of "int b" "int b"]) simp_all
    then have ub: "rsqrt_ref_nat b \<le> 2"
      by (simp add: ib [symmetric])
    from la lb ub 3 show ?thesis
      by auto
  qed
qed

lemma rsqrt_opt_nat_within_one:
  assumes "0 < a" and "a \<le> b" and "b < 2 ^ 32"
  shows "rsqrt_opt_nat b \<le> rsqrt_opt_nat a + 1"
    and "b < 1564 \<Longrightarrow> rsqrt_opt_nat b \<le> rsqrt_opt_nat a"
proof -
  have a: "a < 2 ^ 32"
    using assms(2,3) by simp
  have b: "0 < b"
    using assms(1,2) by simp
  have ia: "int (rsqrt_opt_nat a) = rsqrt_opt_int (int a)"
    using assms(1) a by (rule rsqrt_opt_nat_int)
  have ib: "int (rsqrt_opt_nat b) = rsqrt_opt_int (int b)"
    using b assms(3) by (rule rsqrt_opt_nat_int)
  have "rsqrt_opt_int (int b) \<le> rsqrt_opt_int (int a) + 1"
    using assms by (intro descendsD(3) [OF opt_int_all]) simp_all
  then show "rsqrt_opt_nat b \<le> rsqrt_opt_nat a + 1"
    by (simp add: ia [symmetric] ib [symmetric])
  assume "b < 1564"
  then have "rsqrt_opt_int (int b) \<le> rsqrt_opt_int (int a) + 0"
    using assms by (intro descendsD(3) [OF opt_int_low]) simp_all
  then show "rsqrt_opt_nat b \<le> rsqrt_opt_nat a"
    by (simp add: ia [symmetric] ib [symmetric])
qed

section \<open>Monotonicity\<close>

text \<open>
  Claim C3 as stated says that \<open>fast_rsqrt\<close> is non-increasing on positive inputs. Both
  variants return 1 at \<open>2^30 - 1\<close> and 2 at \<open>2^30\<close>.
\<close>

theorem monotone_counterexample:
  "0 < unat (0x3FFFFFFF :: u32) \<and> unat (0x3FFFFFFF :: u32) < unat (0x40000000 :: u32)
   \<and> fast_rsqrt_ref 0x3FFFFFFF = Some 1 \<and> fast_rsqrt_ref 0x40000000 = Some 2
   \<and> fast_rsqrt_opt 0x3FFFFFFF = Some 1 \<and> fast_rsqrt_opt 0x40000000 = Some 2
   \<and> unat (1 :: u32) < unat (2 :: u32)"
  by (intro conjI fast_rsqrt_ref_value fast_rsqrt_opt_value) (simp_all add: nat_eval)

text \<open>
  Claim C3, as amended. For inputs \<open>0 < a \<le> b\<close>: the reference variant returns at \<open>b\<close> at most
  what it returns at \<open>a\<close>, except when \<open>a < 2^30 \<le> b\<close> and the results are 1 at \<open>a\<close> and 2 at
  \<open>b\<close>; the optimal variant returns at \<open>b\<close> at most one more than at \<open>a\<close>, and at most what it
  returns at \<open>a\<close> when \<open>b < 1564\<close>.
\<close>

theorem result_antitone_up_to_one:
  assumes "0 < unat a" and "unat a \<le> unat b"
  shows "(\<exists>ra rb. fast_rsqrt_ref a = Some ra \<and> fast_rsqrt_ref b = Some rb
        \<and> (rb \<le> ra \<or> (unat a < 2 ^ 30 \<and> 2 ^ 30 \<le> unat b \<and> ra = 1 \<and> rb = 2)))
    \<and> (\<exists>ra rb. fast_rsqrt_opt a = Some ra \<and> fast_rsqrt_opt b = Some rb
        \<and> unat rb \<le> unat ra + 1 \<and> (unat b < 1564 \<longrightarrow> rb \<le> ra))"
proof -
  have b: "unat b < 2 ^ 32"
    by (rule unat_u32_less)
  from fast_rsqrt_ref_nat [of a] fast_rsqrt_ref_nat [of b] obtain ra rb
    where r: "fast_rsqrt_ref a = Some ra" "unat ra = rsqrt_ref_nat (unat a)"
      "fast_rsqrt_ref b = Some rb" "unat rb = rsqrt_ref_nat (unat b)"
    by blast
  from rsqrt_ref_nat_antitone [OF assms b]
  have "unat rb \<le> unat ra
      \<or> (unat a < 2 ^ 30 \<and> 2 ^ 30 \<le> unat b \<and> unat ra = unat (1 :: u32) \<and> unat rb = unat (2 :: u32))"
    by (simp add: r(2,4))
  then have "rb \<le> ra \<or> (unat a < 2 ^ 30 \<and> 2 ^ 30 \<le> unat b \<and> ra = 1 \<and> rb = 2)"
    by (simp only: word_le_nat_alt word_unat_eq_iff)
  with r(1,3) have 1: "\<exists>ra rb. fast_rsqrt_ref a = Some ra \<and> fast_rsqrt_ref b = Some rb
      \<and> (rb \<le> ra \<or> (unat a < 2 ^ 30 \<and> 2 ^ 30 \<le> unat b \<and> ra = 1 \<and> rb = 2))"
    by blast
  from fast_rsqrt_opt_nat [of a] fast_rsqrt_opt_nat [of b] obtain oa ob
    where o: "fast_rsqrt_opt a = Some oa" "unat oa = rsqrt_opt_nat (unat a)"
      "fast_rsqrt_opt b = Some ob" "unat ob = rsqrt_opt_nat (unat b)"
    by blast
  from rsqrt_opt_nat_within_one [OF assms b]
  have "unat ob \<le> unat oa + 1" and "unat b < 1564 \<longrightarrow> unat ob \<le> unat oa"
    by (simp_all add: o(2,4))
  then have "unat ob \<le> unat oa + 1 \<and> (unat b < 1564 \<longrightarrow> ob \<le> oa)"
    by (simp only: word_le_nat_alt)
  with o(1,3) have 2: "\<exists>ra rb. fast_rsqrt_opt a = Some ra \<and> fast_rsqrt_opt b = Some rb
      \<and> unat rb \<le> unat ra + 1 \<and> (unat b < 1564 \<longrightarrow> rb \<le> ra)"
    by blast
  from 1 2 show ?thesis
    by (rule conjI)
qed

theorem result_antitone_up_to_one_witness:
  "0 < unat (3 :: u32) \<and> unat (3 :: u32) \<le> unat (5 :: u32) \<and> unat (5 :: u32) < 1564
   \<and> (\<exists>ra rb. fast_rsqrt_ref 3 = Some ra \<and> fast_rsqrt_ref 5 = Some rb \<and> rb \<le> ra)
   \<and> (\<exists>ra rb. fast_rsqrt_opt 3 = Some ra \<and> fast_rsqrt_opt 5 = Some rb
        \<and> unat rb \<le> unat ra + 1 \<and> rb \<le> ra)"
proof -
  have h: "0 < unat (3 :: u32)" "unat (3 :: u32) \<le> unat (5 :: u32)"
    by simp_all
  have k: "unat (5 :: u32) < 1564" "\<not> 2 ^ 30 \<le> unat (5 :: u32)"
    by simp_all
  from result_antitone_up_to_one [OF h] h k show ?thesis
    by (intro conjI) blast+
qed

section \<open>Relative error\<close>

lemma within_rel_real:
  assumes "within_rel p q y n" and "0 < n" and "0 < q"
  shows "\<bar>real y - 2 ^ 16 / sqrt (real n)\<bar> \<le> (real p / real q) * (2 ^ 16 / sqrt (real n))"
proof -
  define s where "s = sqrt (real n)"
  have s0: "0 < s"
    using assms(2) by (simp add: s_def)
  have s2: "s\<^sup>2 = real n"
    by (simp add: s_def)
  from assms(1) have pq: "p \<le> q" and lo: "((q - p) * 2 ^ 16)\<^sup>2 \<le> (q * y)\<^sup>2 * n"
    and hi: "(q * y)\<^sup>2 * n \<le> ((q + p) * 2 ^ 16)\<^sup>2"
    by (simp_all add: within_rel_def)
  have d: "real (q - p) = real q - real p"
    using pq by (simp add: of_nat_diff)
  have "real (((q - p) * 2 ^ 16)\<^sup>2) \<le> real ((q * y)\<^sup>2 * n)"
    using lo by (simp only: of_nat_le_iff)
  then have "((real q - real p) * 2 ^ 16)\<^sup>2 \<le> (real q * real y)\<^sup>2 * real n"
    by (simp only: of_nat_mult of_nat_power of_nat_numeral d)
  then have "((real q - real p) * 2 ^ 16)\<^sup>2 \<le> (real q * real y * s)\<^sup>2"
    by (simp add: power_mult_distrib s2)
  moreover have "0 \<le> real q * real y * s"
    using s0 by simp
  ultimately have l: "(real q - real p) * 2 ^ 16 \<le> real q * real y * s"
    by (rule power2_le_imp_le)
  have "real ((q * y)\<^sup>2 * n) \<le> real (((q + p) * 2 ^ 16)\<^sup>2)"
    using hi by (simp only: of_nat_le_iff)
  then have "(real q * real y)\<^sup>2 * real n \<le> ((real q + real p) * 2 ^ 16)\<^sup>2"
    by (simp only: of_nat_mult of_nat_power of_nat_numeral of_nat_add)
  then have "(real q * real y * s)\<^sup>2 \<le> ((real q + real p) * 2 ^ 16)\<^sup>2"
    by (simp add: power_mult_distrib s2)
  moreover have "0 \<le> (real q + real p) * 2 ^ 16"
    by simp
  ultimately have u: "real q * real y * s \<le> (real q + real p) * 2 ^ 16"
    by (rule power2_le_imp_le)
  have q0: "0 < real q"
    using assms(3) by simp
  have qs: "0 < real q * s"
    using q0 s0 by simp
  have y: "real y = real q * real y * s / (real q * s)"
    using q0 s0 by simp
  have "real q * real y * s / (real q * s) \<le> (real q + real p) * 2 ^ 16 / (real q * s)"
    using u qs by (intro divide_right_mono) simp_all
  also have "\<dots> = 2 ^ 16 / s + (real p / real q) * (2 ^ 16 / s)"
    using q0 s0 by (simp add: field_simps)
  finally have up: "real y \<le> 2 ^ 16 / s + (real p / real q) * (2 ^ 16 / s)"
    by (simp only: y [symmetric])
  have "2 ^ 16 / s - (real p / real q) * (2 ^ 16 / s) = (real q - real p) * 2 ^ 16 / (real q * s)"
    using q0 s0 by (simp add: field_simps)
  also have "\<dots> \<le> real q * real y * s / (real q * s)"
    using l qs by (intro divide_right_mono) simp_all
  finally have down: "2 ^ 16 / s - (real p / real q) * (2 ^ 16 / s) \<le> real y"
    by (simp only: y [symmetric])
  from up down show ?thesis
    unfolding s_def by (simp add: abs_le_iff)
qed

lemma within_rel_real_conv:
  assumes "\<bar>real y - 2 ^ 16 / sqrt (real n)\<bar> \<le> (real p / real q) * (2 ^ 16 / sqrt (real n))"
    and "0 < n" and "0 < q" and "p \<le> q"
  shows "within_rel p q y n"
proof -
  define s where "s = sqrt (real n)"
  define r where "r = 2 ^ 16 / s"
  have s0: "0 < s"
    using assms(2) by (simp add: s_def)
  have s2: "s\<^sup>2 = real n"
    by (simp add: s_def)
  have q0: "0 < real q"
    using assms(3) by simp
  have rs: "r * s = 2 ^ 16"
    using s0 by (simp add: r_def)
  from assms(1) have a: "\<bar>real y - r\<bar> \<le> (real p / real q) * r"
    by (simp only: r_def s_def)
  then have "r - (real p / real q) * r \<le> real y" and "real y \<le> r + (real p / real q) * r"
    by (simp_all add: abs_le_iff)
  then have "(r - (real p / real q) * r) * (real q * s) \<le> real y * (real q * s)"
    and "real y * (real q * s) \<le> (r + (real p / real q) * r) * (real q * s)"
    using q0 s0 by (simp_all add: mult_right_mono)
  moreover have "(r - (real p / real q) * r) * (real q * s) = (real q - real p) * (r * s)"
    using q0 by (simp add: field_simps)
  moreover have "(r + (real p / real q) * r) * (real q * s) = (real q + real p) * (r * s)"
    using q0 by (simp add: field_simps)
  ultimately have l: "(real q - real p) * 2 ^ 16 \<le> real q * real y * s"
    and u: "real q * real y * s \<le> (real q + real p) * 2 ^ 16"
    by (simp_all add: rs mult.commute mult.left_commute)
  have d: "real (q - p) = real q - real p"
    using assms(4) by (simp add: of_nat_diff)
  have "0 \<le> (real q - real p) * 2 ^ 16"
    using assms(4) by simp
  with l have "((real q - real p) * 2 ^ 16)\<^sup>2 \<le> (real q * real y * s)\<^sup>2"
    by (intro power_mono) simp_all
  then have "((real q - real p) * 2 ^ 16)\<^sup>2 \<le> (real q * real y)\<^sup>2 * real n"
    by (simp add: power_mult_distrib s2)
  then have "real (((q - p) * 2 ^ 16)\<^sup>2) \<le> real ((q * y)\<^sup>2 * n)"
    by (simp only: of_nat_mult of_nat_power of_nat_numeral d)
  then have lo: "((q - p) * 2 ^ 16)\<^sup>2 \<le> (q * y)\<^sup>2 * n"
    by (simp only: of_nat_le_iff)
  have "0 \<le> real q * real y * s"
    using s0 by simp
  with u have "(real q * real y * s)\<^sup>2 \<le> ((real q + real p) * 2 ^ 16)\<^sup>2"
    by (intro power_mono) simp_all
  then have "(real q * real y)\<^sup>2 * real n \<le> ((real q + real p) * 2 ^ 16)\<^sup>2"
    by (simp add: power_mult_distrib s2)
  then have "real ((q * y)\<^sup>2 * n) \<le> real (((q + p) * 2 ^ 16)\<^sup>2)"
    by (simp only: of_nat_mult of_nat_power of_nat_numeral of_nat_add)
  then have hi: "(q * y)\<^sup>2 * n \<le> ((q + p) * 2 ^ 16)\<^sup>2"
    by (simp only: of_nat_le_iff)
  from assms(4) lo hi show ?thesis
    by (simp add: within_rel_def)
qed

lemma err_ref_within:
  assumes "err_ref (int y) (int n)"
  shows "within_rel 1 1000 y n"
proof -
  define v where "v = y * y * n"
  have "int v = int y * int y * int n"
    by (simp add: v_def)
  with assms have "4286381657 \<le> int v" and "int v \<le> 4303561525"
    by (simp_all add: err_ref_def in_range_def)
  then have v: "4286381657 \<le> v" "v \<le> 4303561525"
    by simp_all
  have e: "(1000 * y)\<^sup>2 * n = 1000000 * v"
    by (simp add: v_def power2_eq_square)
  have "((1000 - 1) * 2 ^ 16)\<^sup>2 \<le> 1000000 * v"
    using v(1) by simp
  moreover have "1000000 * v \<le> ((1000 + 1) * 2 ^ 16)\<^sup>2"
    using v(2) by simp
  ultimately show ?thesis
    unfolding within_rel_def e by simp
qed

lemma err_opt_within:
  assumes "err_opt (int y) (int n)"
  shows "within_rel 5 1000 y n"
proof -
  define v where "v = y * y * n"
  have "int v = int y * int y * int n"
    by (simp add: v_def)
  with assms have "4252124998 \<le> int v" and "int v \<le> 4338024343"
    by (simp_all add: err_opt_def in_range_def)
  then have v: "4252124998 \<le> v" "v \<le> 4338024343"
    by simp_all
  have e: "(1000 * y)\<^sup>2 * n = 1000000 * v"
    by (simp add: v_def power2_eq_square)
  have "((1000 - 5) * 2 ^ 16)\<^sup>2 \<le> 1000000 * v"
    using v(1) by simp
  moreover have "1000000 * v \<le> ((1000 + 5) * 2 ^ 16)\<^sup>2"
    using v(2) by simp
  ultimately show ?thesis
    unfolding within_rel_def e by simp
qed

lemma rsqrt_ref_nat_error:
  assumes "0 < n" and "n < 17353"
  shows "within_rel 1 1000 (rsqrt_ref_nat n) n"
proof -
  have "err_ref (rsqrt_ref_int (int n)) (int n)"
    using scan_sound [OF scan_ref] assms by simp
  moreover have "int (rsqrt_ref_nat n) = rsqrt_ref_int (int n)"
    using assms by (intro rsqrt_ref_nat_int) simp_all
  ultimately show ?thesis
    by (intro err_ref_within) simp
qed

lemma rsqrt_opt_nat_error:
  assumes "0 < n" and "n < 6055"
  shows "within_rel 5 1000 (rsqrt_opt_nat n) n"
proof -
  have "err_opt (rsqrt_opt_int (int n)) (int n)"
  proof (cases "n < 1564")
    case True
    with scan_sound [OF scan_opt_low] assms show ?thesis
      by simp
  next
    case False
    with scan_sound [OF scan_opt_mid] assms show ?thesis
      by simp
  qed
  moreover have "int (rsqrt_opt_nat n) = rsqrt_opt_int (int n)"
    using assms by (intro rsqrt_opt_nat_int) simp_all
  ultimately show ?thesis
    by (intro err_opt_within) simp
qed

text \<open>
  Claim C1 as stated bounds the relative error on every positive input, by about 0.1% for
  the reference variant. At \<open>x = 2^31\<close> both variants return 1 while \<open>2^16 / sqrt x\<close> is the
  square root of 2: the result is more than 25% away from it.
\<close>

theorem relative_error_counterexample:
  "fast_rsqrt_ref 0x80000000 = Some 1 \<and> fast_rsqrt_opt 0x80000000 = Some 1
   \<and> \<not> \<bar>real (unat (1 :: u32)) - 2 ^ 16 / sqrt (real (unat (0x80000000 :: u32)))\<bar>
         \<le> (1 / 4) * (2 ^ 16 / sqrt (real (unat (0x80000000 :: u32))))"
proof -
  define r :: real where "r = 2 ^ 16 / sqrt (real (unat (0x80000000 :: u32)))"
  have r0: "0 < r"
    by (simp add: r_def)
  have "r\<^sup>2 = (2 ^ 16)\<^sup>2 / real (unat (0x80000000 :: u32))"
    by (simp add: r_def power_divide)
  then have r2: "r\<^sup>2 = 2"
    by simp
  have "\<not> \<bar>1 - r\<bar> \<le> (1 / 4) * r"
  proof
    assume "\<bar>1 - r\<bar> \<le> (1 / 4) * r"
    moreover have "r - 1 \<le> \<bar>1 - r\<bar>"
      by simp
    ultimately have "r \<le> 4 / 3"
      by linarith
    with r0 have "r\<^sup>2 \<le> (4 / 3)\<^sup>2"
      by (intro power_mono) simp_all
    with r2 show False
      by (simp add: power2_eq_square)
  qed
  moreover have "fast_rsqrt_ref 0x80000000 = Some 1"
    by (rule fast_rsqrt_ref_value) (simp add: nat_eval)
  moreover have "fast_rsqrt_opt 0x80000000 = Some 1"
    by (rule fast_rsqrt_opt_value) (simp add: nat_eval)
  ultimately show ?thesis
    by (simp add: r_def)
qed

text \<open>
  Claim C1, as amended. For every input \<open>x\<close> with \<open>0 < x < 17353\<close> the result of the reference
  variant is within 0.1% of \<open>2^16 / sqrt x\<close>, and for every input \<open>x\<close> with \<open>0 < x < 6055\<close> the
  result of the optimal variant is within 0.5% of it.
\<close>

theorem relative_error_initial_range:
  assumes "0 < unat x"
  shows "(unat x < 17353 \<longrightarrow> (\<exists>r. fast_rsqrt_ref x = Some r
       \<and> \<bar>real (unat r) - 2 ^ 16 / sqrt (real (unat x))\<bar>
           \<le> (1 / 1000) * (2 ^ 16 / sqrt (real (unat x)))))
    \<and> (unat x < 6055 \<longrightarrow> (\<exists>r. fast_rsqrt_opt x = Some r
       \<and> \<bar>real (unat r) - 2 ^ 16 / sqrt (real (unat x))\<bar>
           \<le> (5 / 1000) * (2 ^ 16 / sqrt (real (unat x)))))"
proof (intro conjI impI)
  assume lt: "unat x < 17353"
  from fast_rsqrt_ref_nat [of x] obtain r
    where r: "fast_rsqrt_ref x = Some r" "unat r = rsqrt_ref_nat (unat x)"
    by blast
  have "within_rel 1 1000 (unat r) (unat x)"
    using rsqrt_ref_nat_error [OF assms lt] by (simp only: r(2))
  from within_rel_real [OF this assms]
  have "\<bar>real (unat r) - 2 ^ 16 / sqrt (real (unat x))\<bar>
      \<le> (1 / 1000) * (2 ^ 16 / sqrt (real (unat x)))"
    by simp
  with r(1) show "\<exists>r. fast_rsqrt_ref x = Some r
       \<and> \<bar>real (unat r) - 2 ^ 16 / sqrt (real (unat x))\<bar>
           \<le> (1 / 1000) * (2 ^ 16 / sqrt (real (unat x)))"
    by blast
next
  assume lt: "unat x < 6055"
  from fast_rsqrt_opt_nat [of x] obtain r
    where r: "fast_rsqrt_opt x = Some r" "unat r = rsqrt_opt_nat (unat x)"
    by blast
  have "within_rel 5 1000 (unat r) (unat x)"
    using rsqrt_opt_nat_error [OF assms lt] by (simp only: r(2))
  from within_rel_real [OF this assms]
  have "\<bar>real (unat r) - 2 ^ 16 / sqrt (real (unat x))\<bar>
      \<le> (5 / 1000) * (2 ^ 16 / sqrt (real (unat x)))"
    by simp
  with r(1) show "\<exists>r. fast_rsqrt_opt x = Some r
       \<and> \<bar>real (unat r) - 2 ^ 16 / sqrt (real (unat x))\<bar>
           \<le> (5 / 1000) * (2 ^ 16 / sqrt (real (unat x)))"
    by blast
qed

theorem relative_error_initial_range_witness:
  "0 < unat (1000 :: u32) \<and> unat (1000 :: u32) < 17353 \<and> unat (1000 :: u32) < 6055
   \<and> (\<exists>r. fast_rsqrt_ref 1000 = Some r
       \<and> \<bar>real (unat r) - 2 ^ 16 / sqrt (real (unat (1000 :: u32)))\<bar>
           \<le> (1 / 1000) * (2 ^ 16 / sqrt (real (unat (1000 :: u32)))))
   \<and> (\<exists>r. fast_rsqrt_opt 1000 = Some r
       \<and> \<bar>real (unat r) - 2 ^ 16 / sqrt (real (unat (1000 :: u32)))\<bar>
           \<le> (5 / 1000) * (2 ^ 16 / sqrt (real (unat (1000 :: u32)))))
   \<and> fast_rsqrt_ref 1000 = Some 2072 \<and> fast_rsqrt_opt 1000 = Some 2072"
proof -
  have h: "0 < unat (1000 :: u32)"
    by simp
  have k: "unat (1000 :: u32) < 17353" "unat (1000 :: u32) < 6055"
    by simp_all
  have "fast_rsqrt_ref 1000 = Some 2072"
    by (rule fast_rsqrt_ref_value) (simp add: nat_eval)
  moreover have "fast_rsqrt_opt 1000 = Some 2072"
    by (rule fast_rsqrt_opt_value) (simp add: nat_eval)
  ultimately show ?thesis
    using relative_error_initial_range [OF h] h k by (intro conjI) blast+
qed

text \<open>
  The two ranges end where the bounds first fail: the reference variant returns 498 at
  \<open>x = 17353\<close> and the optimal variant returns 838 at \<open>x = 6055\<close>, each outside its bound.
\<close>

theorem relative_error_range_maximal:
  "fast_rsqrt_ref 17353 = Some 498
   \<and> \<not> \<bar>real (unat (498 :: u32)) - 2 ^ 16 / sqrt (real (unat (17353 :: u32)))\<bar>
         \<le> (1 / 1000) * (2 ^ 16 / sqrt (real (unat (17353 :: u32))))
   \<and> fast_rsqrt_opt 6055 = Some 838
   \<and> \<not> \<bar>real (unat (838 :: u32)) - 2 ^ 16 / sqrt (real (unat (6055 :: u32)))\<bar>
         \<le> (5 / 1000) * (2 ^ 16 / sqrt (real (unat (6055 :: u32))))"
proof -
  have "fast_rsqrt_ref 17353 = Some 498"
    by (rule fast_rsqrt_ref_value) (simp add: nat_eval)
  moreover have "fast_rsqrt_opt 6055 = Some 838"
    by (rule fast_rsqrt_opt_value) (simp add: nat_eval)
  moreover have "\<not> \<bar>real (unat (498 :: u32)) - 2 ^ 16 / sqrt (real (unat (17353 :: u32)))\<bar>
         \<le> (1 / 1000) * (2 ^ 16 / sqrt (real (unat (17353 :: u32))))"
  proof
    assume "\<bar>real (unat (498 :: u32)) - 2 ^ 16 / sqrt (real (unat (17353 :: u32)))\<bar>
         \<le> (1 / 1000) * (2 ^ 16 / sqrt (real (unat (17353 :: u32))))"
    then have "\<bar>real 498 - 2 ^ 16 / sqrt (real 17353)\<bar>
        \<le> (real 1 / real 1000) * (2 ^ 16 / sqrt (real 17353))"
      by simp
    then have "within_rel 1 1000 498 17353"
      by (rule within_rel_real_conv) simp_all
    then show False
      by (simp add: within_rel_def)
  qed
  moreover have "\<not> \<bar>real (unat (838 :: u32)) - 2 ^ 16 / sqrt (real (unat (6055 :: u32)))\<bar>
         \<le> (5 / 1000) * (2 ^ 16 / sqrt (real (unat (6055 :: u32))))"
  proof
    assume "\<bar>real (unat (838 :: u32)) - 2 ^ 16 / sqrt (real (unat (6055 :: u32)))\<bar>
         \<le> (5 / 1000) * (2 ^ 16 / sqrt (real (unat (6055 :: u32))))"
    then have "\<bar>real 838 - 2 ^ 16 / sqrt (real 6055)\<bar>
        \<le> (real 5 / real 1000) * (2 ^ 16 / sqrt (real 6055))"
      by simp
    then have "within_rel 5 1000 838 6055"
      by (rule within_rel_real_conv) simp_all
    then show False
      by (simp add: within_rel_def)
  qed
  ultimately show ?thesis
    by (intro conjI)
qed

end
